theory Spec2Isabelle
  imports Main
begin

section \<open>Values, keys and the copy primitive of form.ts\<close>

text \<open>
  A property key is either an array index (\<open>Index i\<close> is the key written as the decimal
  numeral of \<open>i\<close>) or a name (any other string). Arrays and objects carry a reference
  number: \<open>===\<close> compares them by reference, and \<open>memberCopy\<close> makes a new reference.
  Numbers are the integers and \<open>NaN\<close>. An object holds its properties in the order of
  their creation; \<open>Object.keys\<close> lists the index keys first, in ascending order, then the
  names in the order of their creation. A property that is not the object's own is read from
  \<open>Object.prototype\<close> (\<open>toString\<close>, \<open>constructor\<close>, ...): its value is a built-in
  function, which the model has no value for, so such a read ends in \<open>Unmodelled\<close>, and
  so does every access with the key \<open>__proto__\<close>.
\<close>

datatype key = Name string | Index nat

datatype jsval =
    Undefined
  | Null
  | JBool bool
  | Num int
  | NaN
  | Str string
  | Arr nat "jsval list"
  | Obj nat "(key \<times> jsval) list"

datatype err =
    CopyError      \<comment> \<open>\<open>Error("Can only memberCopy() arrays and objects.")\<close>\<close>
  | TypeError      \<comment> \<open>raised by the runtime: \<open>Object.keys(null)\<close>, a property of \<open>undefined\<close>\<close>
  | Unmodelled     \<comment> \<open>a sparse array, a named property of an array, an inherited property\<close>

type_synonym 'a res = "(err + 'a) option"
  \<comment> \<open>\<open>None\<close>: the fuel ran out; \<open>Some (Inl e)\<close>: \<open>e\<close> was thrown; \<open>Some (Inr x)\<close>: returned\<close>

fun typeof :: "jsval \<Rightarrow> string" where
  "typeof Undefined = ''undefined''"
| "typeof Null = ''object''"
| "typeof (JBool b) = ''boolean''"
| "typeof (Num n) = ''number''"
| "typeof NaN = ''number''"
| "typeof (Str s) = ''string''"
| "typeof (Arr r xs) = ''object''"
| "typeof (Obj r kvs) = ''object''"

fun isArray :: "jsval \<Rightarrow> bool" where
  "isArray (Arr r xs) = True"
| "isArray v = False"

fun truthy :: "jsval \<Rightarrow> bool" where
  "truthy Undefined = False"
| "truthy Null = False"
| "truthy (JBool b) = b"
| "truthy (Num n) = (n \<noteq> 0)"
| "truthy NaN = False"
| "truthy (Str s) = (s \<noteq> [])"
| "truthy (Arr r xs) = True"
| "truthy (Obj r kvs) = True"

text \<open>\<open>a === b\<close>: by reference on arrays and objects, by value elsewhere; \<open>NaN\<close> is
  equal to nothing, itself included.\<close>

fun strictEq :: "jsval \<Rightarrow> jsval \<Rightarrow> bool" where
  "strictEq NaN b = False"
| "strictEq a NaN = False"
| "strictEq (Arr r xs) (Arr r' ys) = (r = r')"
| "strictEq (Obj r xs) (Obj r' ys) = (r = r')"
| "strictEq a b = (a = b)"

text \<open>\<open>Object.keys(v)\<close>\<close>

definition keyOrder :: "key list \<Rightarrow> key list" where
  "keyOrder ks =
     map Index (sort (concat (map (\<lambda>k. case k of Index i \<Rightarrow> [i] | Name x \<Rightarrow> []) ks)))
     @ filter (\<lambda>k. case k of Index i \<Rightarrow> False | Name x \<Rightarrow> True) ks"

fun objectKeys :: "jsval \<Rightarrow> err + key list" where
  "objectKeys Undefined = Inl TypeError"
| "objectKeys Null = Inl TypeError"
| "objectKeys (JBool b) = Inr []"
| "objectKeys (Num n) = Inr []"
| "objectKeys NaN = Inr []"
| "objectKeys (Str s) = Inr (map Index [0..<length s])"
| "objectKeys (Arr r xs) = Inr (map Index [0..<length xs])"
| "objectKeys (Obj r kvs) = Inr (keyOrder (map fst kvs))"

text \<open>The names that every object inherits from \<open>Object.prototype\<close>, and the other names
  that an array, a string, a number or a boolean inherits from its own prototype (with
  \<open>length\<close>).\<close>

definition objectProto :: "string list" where
  "objectProto =
     [''constructor'', ''hasOwnProperty'', ''isPrototypeOf'', ''propertyIsEnumerable'',
      ''toLocaleString'', ''toString'', ''valueOf'', ''__proto__'', ''__defineGetter__'',
      ''__defineSetter__'', ''__lookupGetter__'', ''__lookupSetter__'']"

definition otherProto :: "string list" where
  "otherProto =
     [''length'', ''at'', ''concat'', ''copyWithin'', ''entries'', ''every'', ''fill'', ''filter'',
      ''find'', ''findIndex'', ''findLast'', ''findLastIndex'', ''flat'', ''flatMap'', ''forEach'',
      ''includes'', ''indexOf'', ''join'', ''keys'', ''lastIndexOf'', ''map'', ''pop'', ''push'',
      ''reduce'', ''reduceRight'', ''reverse'', ''shift'', ''slice'', ''some'', ''sort'', ''splice'',
      ''toReversed'', ''toSorted'', ''toSpliced'', ''unshift'', ''values'', ''with'',
      ''anchor'', ''big'', ''blink'', ''bold'', ''charAt'', ''charCodeAt'', ''codePointAt'',
      ''endsWith'', ''fixed'', ''fontcolor'', ''fontsize'', ''isWellFormed'', ''italics'', ''link'',
      ''localeCompare'', ''match'', ''matchAll'', ''normalize'', ''padEnd'', ''padStart'', ''repeat'',
      ''replace'', ''replaceAll'', ''search'', ''small'', ''split'', ''startsWith'', ''strike'',
      ''sub'', ''substr'', ''substring'', ''sup'', ''toLocaleLowerCase'', ''toLocaleUpperCase'',
      ''toLowerCase'', ''toUpperCase'', ''toWellFormed'', ''trim'', ''trimEnd'', ''trimLeft'',
      ''trimRight'', ''trimStart'', ''toExponential'', ''toFixed'', ''toPrecision'']"

definition inherited :: "key \<Rightarrow> bool" where
  "inherited k = (case k of Name x \<Rightarrow> x \<in> set objectProto | Index i \<Rightarrow> False)"

definition builtin :: "key \<Rightarrow> bool" where
  "builtin k = (case k of Name x \<Rightarrow> x \<in> set objectProto \<or> x \<in> set otherProto | Index i \<Rightarrow> False)"

text \<open>\<open>v[k]\<close>, read: an own property, or \<open>undefined\<close> when no prototype has it.\<close>

fun getProp :: "jsval \<Rightarrow> key \<Rightarrow> err + jsval" where
  "getProp Undefined k = Inl TypeError"
| "getProp Null k = Inl TypeError"
| "getProp (Str s) (Index i) = Inr (if i < length s then Str [s ! i] else Undefined)"
| "getProp (Arr r xs) (Index i) = Inr (if i < length xs then xs ! i else Undefined)"
| "getProp (Obj r kvs) k =
     (if k = Name ''__proto__'' then Inl Unmodelled
      else case map_of kvs k of
             Some v \<Rightarrow> Inr v
           | None \<Rightarrow> if inherited k then Inl Unmodelled else Inr Undefined)"
| "getProp v k = (if builtin k then Inl Unmodelled else Inr Undefined)"

text \<open>An association list as a JavaScript object: assignment keeps the position of an
  existing key and appends a new one; \<open>delete\<close> removes the key.\<close>

fun assign :: "('k \<times> 'v) list \<Rightarrow> 'k \<Rightarrow> 'v \<Rightarrow> ('k \<times> 'v) list" where
  "assign [] k v = [(k, v)]"
| "assign ((k', v') # kvs) k v = (if k' = k then (k, v) # kvs else (k', v') # assign kvs k v)"

definition remove :: "('k \<times> 'v) list \<Rightarrow> 'k \<Rightarrow> ('k \<times> 'v) list" where
  "remove kvs k = filter (\<lambda>kv. fst kv \<noteq> k) kvs"

text \<open>\<open>map[key] = value\<close> on a container\<close>

fun setProp :: "jsval \<Rightarrow> key \<Rightarrow> jsval \<Rightarrow> err + jsval" where
  "setProp (Obj r kvs) k v =
     (if k = Name ''__proto__'' then Inl Unmodelled else Inr (Obj r (assign kvs k v)))"
| "setProp (Arr r xs) (Index i) v =
     (if i < length xs then Inr (Arr r (xs[i := v]))
      else if i = length xs then Inr (Arr r (xs @ [v]))
      else Inl Unmodelled)"
| "setProp (Arr r xs) (Name x) v = Inl Unmodelled"
| "setProp c k v = Inl TypeError"

text \<open>\<open>if (Array.isArray(map)) map.splice(key as number, 1); else delete map[key];\<close>
  A name given to \<open>splice\<close> converts to 0. Deleting an own property that shadows an
  inherited one would uncover a built-in function: not modelled.\<close>

definition splice1 :: "'a list \<Rightarrow> nat \<Rightarrow> 'a list" where
  "splice1 xs i = take i xs @ drop (Suc i) xs"

fun delProp :: "jsval \<Rightarrow> key \<Rightarrow> err + jsval" where
  "delProp (Arr r xs) (Index i) = Inr (Arr r (splice1 xs i))"
| "delProp (Arr r xs) (Name x) =
     (if x = ''__proto__'' then Inl Unmodelled else Inr (Arr r (splice1 xs 0)))"
| "delProp (Obj r kvs) k = (if inherited k then Inl Unmodelled else Inr (Obj r (remove kvs k)))"
| "delProp c k = Inl TypeError"

text \<open>
  \<^verbatim>\<open>
  function memberCopy<T>(value: T): T {
      if (Array.isArray(value)) { return [...value] as any; }
      else if (typeof value === "object") { return { ...value }; }
      else { throw new Error("Can only memberCopy() arrays and objects."); }
  }
  \<close>
  The first argument is the reference number given to the copy. Spreading \<open>null\<close> into
  an object literal gives the empty object.
\<close>

fun memberCopy :: "nat \<Rightarrow> jsval \<Rightarrow> err + jsval" where
  "memberCopy r (Arr r' xs) = Inr (Arr r xs)"
| "memberCopy r (Obj r' kvs) = Inr (Obj r kvs)"
| "memberCopy r Null = Inr (Obj r [])"
| "memberCopy r v = Inl CopyError"

text \<open>The content of a container, without its reference.\<close>

fun sameContent :: "jsval \<Rightarrow> jsval \<Rightarrow> bool" where
  "sameContent (Arr r xs) (Arr r' ys) = (xs = ys)"
| "sameContent (Obj r xs) (Obj r' ys) = (xs = ys)"
| "sameContent a b = False"

section \<open>Nodes and the world\<close>

text \<open>
  A node is an instance of \<open>FormState\<close>; a \<open>ChildFormState\<close> is a node whose
  \<open>parent\<close> field holds the parent's id and the field name. Nodes live in a store
  indexed by \<open>formId\<close>. A listener is known by its subscription id; calling it is
  recorded in the trace of the world, with the flag it receives. The trace also records
  the entry into \<open>setValueInternal\<close>, \<open>setValues\<close>, \<open>setErrors\<close> and \<open>setState\<close>
  (a call counter); console output is left out.
\<close>

datatype event =
    Fired nat key nat bool      \<comment> \<open>node, field, subscription id, \<open>setValuesWasUsed\<close>\<close>
  | FiredAny nat nat bool       \<comment> \<open>node, subscription id, \<open>setValuesWasUsed\<close>\<close>
  | Called nat string           \<comment> \<open>node, method\<close>

record node =
  vals :: jsval      \<comment> \<open>the field \<open>values\<close>\<close>
  defaultValues :: jsval
  childMap :: "key \<Rightarrow> nat option"
  dirtyMap :: "(key \<times> bool) list"
  errorMap :: "(key \<times> jsval) list"
  state :: jsval
  listeners :: "key \<Rightarrow> nat list"
  anyListeners :: "nat list"
  counter :: nat
  validator :: "(jsval \<Rightarrow> jsval) option"
  validateOnChange :: bool
  parent :: "(nat \<times> key) option"

record world =
  nodes :: "nat \<Rightarrow> node"
  formCounter :: nat
  nextRef :: nat
  trace :: "event list"

definition thenDo :: "'a res \<Rightarrow> ('a \<Rightarrow> 'b res) \<Rightarrow> 'b res" where
  "thenDo m f = (case m of None \<Rightarrow> None | Some (Inl e) \<Rightarrow> Some (Inl e) | Some (Inr x) \<Rightarrow> f x)"

definition ret :: "'a \<Rightarrow> 'a res" where
  "ret x = Some (Inr x)"

definition lift :: "err + 'a \<Rightarrow> 'a res" where
  "lift x = Some x"

text \<open>A \<open>for\<close> loop over a list of keys, stopping at the first exception.\<close>

primrec forEach :: "'k list \<Rightarrow> ('w \<Rightarrow> 'k \<Rightarrow> 'w res) \<Rightarrow> 'w \<Rightarrow> 'w res" where
  "forEach [] f w = ret w"
| "forEach (k # ks) f w = thenDo (f w k) (forEach ks f)"

definition upd :: "nat \<Rightarrow> (node \<Rightarrow> node) \<Rightarrow> world \<Rightarrow> world" where
  "upd n g w = w\<lparr>nodes := (nodes w)(n := g (nodes w n))\<rparr>"

definition emit :: "event list \<Rightarrow> world \<Rightarrow> world" where
  "emit es w = w\<lparr>trace := trace w @ es\<rparr>"

text \<open>\<open>get dirty()\<close> and \<open>get error()\<close>\<close>

definition dirty :: "node \<Rightarrow> bool" where
  "dirty nd = list_ex snd (dirtyMap nd)"

definition error :: "node \<Rightarrow> bool" where
  "error nd = list_ex (\<lambda>kv. truthy (snd kv)) (errorMap nd)"

text \<open>\<open>fireListeners\<close> and \<open>fireAnyListeners\<close>\<close>

definition fireListeners :: "nat \<Rightarrow> key \<Rightarrow> bool \<Rightarrow> world \<Rightarrow> world" where
  "fireListeners n k flag w = emit (map (\<lambda>l. Fired n k l flag) (listeners (nodes w n) k)) w"

definition fireAnyListeners :: "nat \<Rightarrow> bool \<Rightarrow> world \<Rightarrow> world" where
  "fireAnyListeners n flag w = emit (map (\<lambda>l. FiredAny n l flag) (anyListeners (nodes w n))) w"

text \<open>\<open>listen\<close>, \<open>listenAny\<close>, \<open>ignore\<close>, \<open>ignoreAny\<close>; the id returned is the counter.
  For an inherited name \<open>this.listeners[key]\<close> is a built-in function shared by all
  objects, and \<open>listen\<close> would store the listener on it: not modelled.\<close>

definition listen :: "nat \<Rightarrow> key \<Rightarrow> world \<Rightarrow> (world \<times> nat) res" where
  "listen n k w =
     (if inherited k then Some (Inl Unmodelled)
      else
        let nd = nodes w n; i = counter nd
        in ret (upd n (\<lambda>nd. nd\<lparr>listeners := (listeners nd)(k := listeners nd k @ [i]),
                              counter := Suc i\<rparr>) w, i))"

definition listenAny :: "nat \<Rightarrow> world \<Rightarrow> world \<times> nat" where
  "listenAny n w =
     (let nd = nodes w n; i = counter nd
      in (upd n (\<lambda>nd. nd\<lparr>anyListeners := anyListeners nd @ [i], counter := Suc i\<rparr>) w, i))"

definition ignore :: "nat \<Rightarrow> key \<Rightarrow> nat \<Rightarrow> world \<Rightarrow> world" where
  "ignore n k i w = upd n (\<lambda>nd. nd\<lparr>listeners := (listeners nd)(k := removeAll i (listeners nd k))\<rparr>) w"

definition ignoreAny :: "nat \<Rightarrow> nat \<Rightarrow> world \<Rightarrow> world" where
  "ignoreAny n i w = upd n (\<lambda>nd. nd\<lparr>anyListeners := removeAll i (anyListeners nd)\<rparr>) w"

text \<open>A new reference for a copy or an object literal.\<close>

definition copyIn :: "jsval \<Rightarrow> world \<Rightarrow> (jsval \<times> world) res" where
  "copyIn v w =
     (case memberCopy (nextRef w) v of
        Inl e \<Rightarrow> Some (Inl e)
      | Inr c \<Rightarrow> ret (c, w\<lparr>nextRef := Suc (nextRef w)\<rparr>))"

text \<open>\<open>v ?? {}\<close>\<close>

definition orEmpty :: "jsval \<Rightarrow> world \<Rightarrow> jsval \<times> world" where
  "orEmpty v w =
     (if v = Undefined \<or> v = Null then (Obj (nextRef w) [], w\<lparr>nextRef := Suc (nextRef w)\<rparr>)
      else (v, w))"

section \<open>Construction\<close>

text \<open>
  \<^verbatim>\<open>
  public constructor(values, defaultValues, defaultState, validator?, validateOnChange = true) {
      this.values = memberCopy(values);
      this.defaultValues = memberCopy(defaultValues);
      this._state = memberCopy(defaultState);
      ...
  }
  \<close>
\<close>

definition construct ::
  "jsval \<Rightarrow> jsval \<Rightarrow> jsval \<Rightarrow> (jsval \<Rightarrow> jsval) option \<Rightarrow> bool \<Rightarrow> (nat \<times> key) option \<Rightarrow> world
   \<Rightarrow> (nat \<times> world) res" where
  "construct vs ds st vf voc par w =
     (let n = Suc (formCounter w); w0 = w\<lparr>formCounter := n\<rparr> in
      thenDo (copyIn vs w0) (\<lambda>(v, w1).
      thenDo (copyIn ds w1) (\<lambda>(d, w2).
      thenDo (copyIn st w2) (\<lambda>(s, w3).
      ret (n, w3\<lparr>nodes := (nodes w3)(n :=
        \<lparr>vals = v, defaultValues = d, childMap = (\<lambda>k. None), dirtyMap = [], errorMap = [],
         state = s, listeners = (\<lambda>k. []), anyListeners = [], counter = 0,
         validator = vf, validateOnChange = voc, parent = par\<rparr>)\<rparr>)))))"

definition newFormState ::
  "jsval \<Rightarrow> jsval \<Rightarrow> jsval \<Rightarrow> (jsval \<Rightarrow> jsval) option \<Rightarrow> bool \<Rightarrow> world \<Rightarrow> (nat \<times> world) res" where
  "newFormState vs ds st vf voc w = construct vs ds st vf voc None w"

text \<open>
  \<^verbatim>\<open>
  public constructor(parent, name) {
      super(parent.values[name] ?? ({} as any), parent.defaultValues[name] ?? ({} as any),
            parent.state);
      this.parent = parent; this.name = name;
      parent.childMap[name] = this;
  }
  \<close>
\<close>

definition newChildFormState :: "nat \<Rightarrow> key \<Rightarrow> world \<Rightarrow> (nat \<times> world) res" where
  "newChildFormState p name w =
     (let pn = nodes w p in
      thenDo (lift (getProp (vals pn) name)) (\<lambda>pv.
      thenDo (lift (getProp (defaultValues pn) name)) (\<lambda>pd.
      let (v, w1) = orEmpty pv w; (d, w2) = orEmpty pd w1 in
      thenDo (construct v d (state pn) None True (Some (p, name)) w2) (\<lambda>(n, w3).
      ret (n, upd p (\<lambda>nd. nd\<lparr>childMap := (childMap nd)(name := Some n)\<rparr>) w3)))))"

section \<open>The error mutation engine\<close>

text \<open>
  \<^verbatim>\<open>
  public setError(key, error, notifyChild = true, notifyParent = true, fireAny = true) {
      if (this.errorMap[key] === error) return;
      if (!error) delete this.errorMap[key];
      else this.errorMap[key] = error;
      if (notifyChild) this.childMap[key]?.setErrors((error ?? {}) as any);
      this.fireListeners(key, false);
      if (fireAny) {
          if (notifyParent) this.updateParentErrors();
          this.fireAnyListeners(false);
      }
  }
  public setErrors(errors, notifyChild = true, notifyParent = true) {
      let localKeys = Object.keys(this.errorMap);
      let newKeys = Object.keys(errors);
      let mostKeys = newKeys.length > localKeys.length ? newKeys : localKeys;
      for (let i = 0; i < mostKeys.length; i++) {
          let key = mostKeys[i] as keyof T;
          this.setError(key, errors[key] as any, notifyChild, notifyParent, false);
      }
      if (notifyParent) this.updateParentErrors();
      this.fireAnyListeners(false);
  }
  // ChildFormState
  protected updateParentErrors() {
      this.parent.setError(this.name,
          this.error ? (memberCopy(this.errorMap) as any) : undefined, false, true);
  }
  \<close>
  The first argument is the fuel: each call spends one unit, and \<open>None\<close> is a run that
  needs more. \<open>updateParentErrors\<close> of a root node does nothing. \<open>this.errorMap[key]\<close>
  is the read of a property of the object \<open>errorMap\<close>. Where \<open>childMap\<close> has no entry
  of its own for an inherited name, \<open>this.childMap[key]\<close> is a built-in function, and the
  call of its \<open>setErrors\<close> (likewise \<open>setValues\<close>, \<open>setState\<close>) is a \<open>TypeError\<close>.
\<close>

definition mostKeysOf :: "key list \<Rightarrow> key list \<Rightarrow> key list" where
  "mostKeysOf newKeys localKeys = (if length newKeys > length localKeys then newKeys else localKeys)"

fun setError :: "nat \<Rightarrow> nat \<Rightarrow> key \<Rightarrow> jsval \<Rightarrow> bool \<Rightarrow> bool \<Rightarrow> bool \<Rightarrow> world \<Rightarrow> world res"
and setErrors :: "nat \<Rightarrow> nat \<Rightarrow> jsval \<Rightarrow> bool \<Rightarrow> bool \<Rightarrow> world \<Rightarrow> world res"
and updateParentErrors :: "nat \<Rightarrow> nat \<Rightarrow> world \<Rightarrow> world res"
where
  "setError 0 n k e nc np fa w = None"
| "setError (Suc f) n k e nc np fa w =
     thenDo (lift (getProp (Obj 0 (errorMap (nodes w n))) k)) (\<lambda>cur.
     if strictEq cur e then ret w
     else
       let w1 = upd n (\<lambda>nd. nd\<lparr>errorMap :=
                  (if \<not> truthy e then remove (errorMap nd) k else assign (errorMap nd) k e)\<rparr>) w
       in
       thenDo (if nc then
                 (case childMap (nodes w1 n) k of
                    None \<Rightarrow> if inherited k then Some (Inl TypeError) else ret w1
                  | Some c \<Rightarrow> (let (e', w2) = orEmpty e w1 in setErrors f c e' True True w2))
               else ret w1) (\<lambda>w3.
       let w4 = fireListeners n k False w3 in
       if fa then
         thenDo (if np then updateParentErrors f n w4 else ret w4) (\<lambda>w5.
         ret (fireAnyListeners n False w5))
       else ret w4))"
| "setErrors 0 n errors nc np w = None"
| "setErrors (Suc f) n errors nc np w =
     (let w0 = emit [Called n ''setErrors''] w;
          localKeys = keyOrder (map fst (errorMap (nodes w0 n)))
      in
      thenDo (lift (objectKeys errors)) (\<lambda>newKeys.
      thenDo (forEach (mostKeysOf newKeys localKeys)
                (\<lambda>w k. thenDo (lift (getProp errors k)) (\<lambda>e. setError f n k e nc np False w))
                w0) (\<lambda>w1.
      thenDo (if np then updateParentErrors f n w1 else ret w1) (\<lambda>w2.
      ret (fireAnyListeners n False w2)))))"
| "updateParentErrors 0 n w = None"
| "updateParentErrors (Suc f) n w =
     (case parent (nodes w n) of
        None \<Rightarrow> ret w
      | Some (p, name) \<Rightarrow>
          if error (nodes w n) then
            thenDo (copyIn (Obj 0 (errorMap (nodes w n))) w) (\<lambda>(c, w1).
            setError f p name c False True True w1)
          else setError f p name Undefined False True True w)"

text \<open>
  \<^verbatim>\<open>
  public validate() {
      if (!this.validator) { console.warn(...); return; }
      this.setErrors(this.validator(this.values));
  }
  \<close>
\<close>

definition validate :: "nat \<Rightarrow> nat \<Rightarrow> world \<Rightarrow> world res" where
  "validate f n w =
     (case validator (nodes w n) of
        None \<Rightarrow> ret w
      | Some vf \<Rightarrow> setErrors f n (vf (vals (nodes w n))) True True w)"

section \<open>The value mutation engine\<close>

text \<open>
  \<open>setValueInternal\<close> (lines 83 to 127 of form.ts), \<open>setValue\<close> (141 to 188),
  \<open>setValues\<close> (190 to 218) and \<open>updateParentValues\<close> of \<open>ChildFormState\<close>
  (369 to 382), in the order of their statements. \<open>dirty\<close> is \<open>None\<close> for
  \<open>undefined\<close>. \<open>setValue\<close> returns the world and its boolean result.
\<close>

definition target :: "bool \<Rightarrow> node \<Rightarrow> jsval" where
  "target isDefault nd = (if isDefault then defaultValues nd else vals nd)"

definition setTarget :: "bool \<Rightarrow> jsval \<Rightarrow> node \<Rightarrow> node" where
  "setTarget isDefault m nd = (if isDefault then nd\<lparr>defaultValues := m\<rparr> else nd\<lparr>vals := m\<rparr>)"

type_synonym setValueInternalT =
  "nat \<Rightarrow> key \<Rightarrow> jsval \<Rightarrow> bool option \<Rightarrow> bool \<Rightarrow> bool \<Rightarrow> bool \<Rightarrow> bool \<Rightarrow> bool \<Rightarrow> world \<Rightarrow> world res"
type_synonym updateParentValuesT = "nat \<Rightarrow> bool \<Rightarrow> world \<Rightarrow> world res"
type_synonym setValueT =
  "nat \<Rightarrow> key \<Rightarrow> jsval \<Rightarrow> bool \<Rightarrow> bool \<Rightarrow> bool \<Rightarrow> bool \<Rightarrow> bool \<Rightarrow> world \<Rightarrow> (world \<times> bool) res"
type_synonym setValuesT = "nat \<Rightarrow> jsval \<Rightarrow> bool \<Rightarrow> bool \<Rightarrow> bool \<Rightarrow> world \<Rightarrow> world res"

text \<open>The bodies of the four methods, over the methods they call (with one unit of fuel less).\<close>

definition setValueInternalBody ::
  "(nat \<Rightarrow> world \<Rightarrow> world res) \<Rightarrow> setValuesT \<Rightarrow> updateParentValuesT \<Rightarrow> setValueInternalT" where
  "setValueInternalBody validateF setValuesF updateParentValuesF n k v d val isDefault nc np fa w =
     (let w0 = emit [Called n ''setValueInternal''] w;
          m = target isDefault (nodes w0 n)
      in
      thenDo (lift (if v = Undefined then delProp m k else setProp m k v)) (\<lambda>m'.
      let w1 = upd n (setTarget isDefault m') w0;
          w2 = (case d of
                  None \<Rightarrow> w1
                | Some b \<Rightarrow> upd n (\<lambda>nd. nd\<lparr>dirtyMap := assign (dirtyMap nd) k b\<rparr>) w1)
      in
      thenDo (if nc \<and> v \<noteq> Undefined then
                (case childMap (nodes w2 n) k of
                   None \<Rightarrow> if inherited k then Some (Inl TypeError) else ret w2
                 | Some c \<Rightarrow>
                     thenDo (setValuesF c v isDefault True False w2) (\<lambda>w3.
                     ret (upd n (\<lambda>nd. nd\<lparr>dirtyMap := assign (dirtyMap nd) k (dirty (nodes w3 c))\<rparr>) w3)))
              else ret w2) (\<lambda>w4.
      let w5 = fireListeners n k False w4 in
      thenDo (if fa then
                thenDo (if np then updateParentValuesF n isDefault w5 else ret w5) (\<lambda>w6.
                ret (fireAnyListeners n False w6))
              else ret w5) (\<lambda>w7.
      if validator (nodes w7 n) \<noteq> None \<and> val then validateF n w7 else ret w7))))"

definition updateParentValuesBody :: "setValueInternalT \<Rightarrow> updateParentValuesT" where
  "updateParentValuesBody setValueInternalF n isDefault w =
     (case parent (nodes w n) of
        None \<Rightarrow> ret w
      | Some (p, name) \<Rightarrow>
          thenDo (copyIn (target isDefault (nodes w n)) w) (\<lambda>(c, w1).
          setValueInternalF p name c (Some (dirty (nodes w1 n))) True isDefault False True True w1))"

definition setValueBody :: "setValueInternalT \<Rightarrow> setValueT" where
  "setValueBody setValueInternalF n k v val isDefault nc np fa w =
     (if typeof v = ''object'' then
        thenDo (setValueInternalF n k v None val isDefault nc np fa w) (\<lambda>w1. ret (w1, True))
      else
        thenDo (lift (getProp (target isDefault (nodes w n)) k)) (\<lambda>cur.
        if strictEq cur v then ret (w, False)
        else
          thenDo (lift (getProp (target (\<not> isDefault) (nodes w n)) k)) (\<lambda>other.
          thenDo (setValueInternalF n k v (Some (\<not> strictEq v other)) val isDefault nc np fa w)
            (\<lambda>w1. ret (w1, True)))))"

definition setValuesBody ::
  "(nat \<Rightarrow> world \<Rightarrow> world res) \<Rightarrow> setValueT \<Rightarrow> updateParentValuesT \<Rightarrow> setValuesT" where
  "setValuesBody validateF setValueF updateParentValuesF n vs isDefault nc np w =
     (let w0 = emit [Called n ''setValues''] w in
      thenDo (lift (objectKeys (target isDefault (nodes w0 n)))) (\<lambda>newKeys.
      thenDo (lift (objectKeys vs)) (\<lambda>localKeys.
      thenDo (forEach (mostKeysOf newKeys localKeys)
                (\<lambda>w k. thenDo (lift (getProp vs k)) (\<lambda>v.
                        thenDo (setValueF n k v False isDefault nc np False w) (\<lambda>(w', b). ret w')))
                w0) (\<lambda>w1.
      thenDo (if np then updateParentValuesF n isDefault w1 else ret w1) (\<lambda>w2.
      let w3 = fireAnyListeners n True w2 in
      if validator (nodes w3 n) \<noteq> None then validateF n w3 else ret w3)))))"

text \<open>The four methods by recursion on the fuel: with no fuel nothing returns, and each
  call runs the body of the callee with one unit less.\<close>

primrec valueEngine ::
  "nat \<Rightarrow> setValueInternalT \<times> updateParentValuesT \<times> setValueT \<times> setValuesT" where
  "valueEngine 0 =
     (\<lambda>n k v d val isDefault nc np fa w. None, \<lambda>n isDefault w. None,
      \<lambda>n k v val isDefault nc np fa w. None, \<lambda>n vs isDefault nc np w. None)"
| "valueEngine (Suc f) =
     (setValueInternalBody (validate f) (snd (snd (snd (valueEngine f)))) (fst (snd (valueEngine f))),
      updateParentValuesBody (fst (valueEngine f)),
      setValueBody (fst (valueEngine f)),
      setValuesBody (validate f) (fst (snd (snd (valueEngine f)))) (fst (snd (valueEngine f))))"

definition setValueInternal :: "nat \<Rightarrow> setValueInternalT" where
  "setValueInternal f = fst (valueEngine f)"

definition updateParentValues :: "nat \<Rightarrow> updateParentValuesT" where
  "updateParentValues f = fst (snd (valueEngine f))"

definition setValue :: "nat \<Rightarrow> setValueT" where
  "setValue f = fst (snd (snd (valueEngine f)))"

definition setValues :: "nat \<Rightarrow> setValuesT" where
  "setValues f = snd (snd (snd (valueEngine f)))"



section \<open>Shared state\<close>

text \<open>
  \<^verbatim>\<open>
  public setState(state, notifyChild = true, notifyParent = true) {
      this._state = state;
      let c = Object.keys(this.values);
      if (notifyChild)
          c.forEach((e) => this.childMap[e]?.setState(state, notifyChild, notifyParent));
      c.forEach((e) => this.fireListeners(e as keyof T, false));
      if (notifyParent) this.updateParentState();
      this.fireAnyListeners(false);
  }
  // ChildFormState
  protected updateParentState() { this.parent.setState(memberCopy(this.state), false, true); }
  \<close>
\<close>

fun setState :: "nat \<Rightarrow> nat \<Rightarrow> jsval \<Rightarrow> bool \<Rightarrow> bool \<Rightarrow> world \<Rightarrow> world res"
and updateParentState :: "nat \<Rightarrow> nat \<Rightarrow> world \<Rightarrow> world res"
where
  "setState 0 n st nc np w = None"
| "setState (Suc f) n st nc np w =
     (let w0 = upd n (\<lambda>nd. nd\<lparr>state := st\<rparr>) (emit [Called n ''setState''] w) in
      thenDo (lift (objectKeys (vals (nodes w0 n)))) (\<lambda>c.
      thenDo (if nc then
                forEach c (\<lambda>w e. case childMap (nodes w n) e of
                                    None \<Rightarrow> if inherited e then Some (Inl TypeError) else ret w
                                  | Some ch \<Rightarrow> setState f ch st nc np w) w0
              else ret w0) (\<lambda>w1.
      thenDo (forEach c (\<lambda>w e. ret (fireListeners n e False w)) w1) (\<lambda>w2.
      thenDo (if np then updateParentState f n w2 else ret w2) (\<lambda>w3.
      ret (fireAnyListeners n False w3))))))"
| "updateParentState 0 n w = None"
| "updateParentState (Suc f) n w =
     (case parent (nodes w n) of
        None \<Rightarrow> ret w
      | Some (p, name) \<Rightarrow>
          thenDo (copyIn (state (nodes w n)) w) (\<lambda>(c, w1). setState f p c False True w1))"

section \<open>Example worlds\<close>

text \<open>The world before any node is made: the static \<open>formCounter\<close> is 0. References
  made by the program count from 0; the examples give the caller's own objects references
  from 1000 on.\<close>

definition emptyNode :: node where
  "emptyNode =
     \<lparr>vals = Undefined, defaultValues = Undefined, childMap = (\<lambda>k. None), dirtyMap = [],
      errorMap = [], state = Undefined, listeners = (\<lambda>k. []), anyListeners = [], counter = 0,
      validator = None, validateOnChange = True, parent = None\<rparr>"

definition emptyWorld :: world where
  "emptyWorld = \<lparr>nodes = (\<lambda>n. emptyNode), formCounter = 0, nextRef = 0, trace = []\<rparr>"

definition observe :: "(world \<Rightarrow> 'a) \<Rightarrow> world res \<Rightarrow> 'a res" where
  "observe g m = thenDo m (\<lambda>w. ret (g w))"

definition isKeyed :: "jsval \<Rightarrow> bool" where
  "isKeyed v = (case v of Obj r kvs \<Rightarrow> True | _ \<Rightarrow> False)"

text \<open>A root node with values \<open>{a: 1}\<close>, then \<open>setValues({b: 2})\<close>.\<close>

definition runSetValuesAB :: "world res" where
  "runSetValuesAB =
     thenDo (newFormState (Obj 1000 [(Name ''a'', Num 1)]) (Obj 1001 []) (Obj 1002 []) None True
               emptyWorld) (\<lambda>(n, w).
     setValues 5 n (Obj 1003 [(Name ''b'', Num 2)]) False True True w)"

text \<open>A root node, \<open>setErrors({a: "x"})\<close>, then \<open>setErrors({b: "y"})\<close>.\<close>

definition runSetErrorsAB :: "world res" where
  "runSetErrorsAB =
     thenDo (newFormState (Obj 1000 []) (Obj 1001 []) (Obj 1002 []) None True emptyWorld) (\<lambda>(n, w).
     thenDo (setErrors 5 n (Obj 1003 [(Name ''a'', Str ''x'')]) True True w) (\<lambda>w.
     setErrors 5 n (Obj 1004 [(Name ''b'', Str ''y'')]) True True (w\<lparr>trace := []\<rparr>)))"

section \<open>What a run leaves alone\<close>

text \<open>
  An observation \<open>proj\<close> of the world is inert for the error engine when it does not see
  a write to an \<open>errorMap\<close>, a new reference, or an event of the kind the error engine
  emits (a listener called with \<open>false\<close>, an entry into \<open>setErrors\<close>).
\<close>

definition errEvent :: "event \<Rightarrow> bool" where
  "errEvent e = (case e of Fired n k l b \<Rightarrow> \<not> b | FiredAny n l b \<Rightarrow> \<not> b | Called n s \<Rightarrow> s = ''setErrors'')"

definition errInert :: "(world \<Rightarrow> 'a) \<Rightarrow> bool" where
  "errInert proj \<longleftrightarrow>
     (\<forall>w x em. proj (upd x (\<lambda>nd. nd\<lparr>errorMap := em nd\<rparr>) w) = proj w)
   \<and> (\<forall>w r. proj (w\<lparr>nextRef := r\<rparr>) = proj w)
   \<and> (\<forall>w es. (\<forall>e\<in>set es. errEvent e) \<longrightarrow> proj (emit es w) = proj w)"

text \<open>
  The value engine writes \<open>values\<close>, \<open>defaultValues\<close> and \<open>dirtyMap\<close> of the nodes it
  reaches: the node called, below it the children (when \<open>notifyChild\<close>), above it the
  parents (when \<open>notifyParent\<close>). \<open>D\<close> is a set of nodes closed under children, \<open>U\<close> a
  set closed under parents; an observation is inert on a set \<open>T\<close> of nodes when it does not
  see a write to those three fields of a node of \<open>T\<close>, a new reference, or an event of a
  node of \<open>T\<close> (field listeners are always called with \<open>false\<close>).
\<close>

definition dataUpd :: "(node \<Rightarrow> node) \<Rightarrow> bool" where
  "dataUpd g \<longleftrightarrow>
     (\<forall>nd. childMap (g nd) = childMap nd \<and> errorMap (g nd) = errorMap nd \<and> state (g nd) = state nd
         \<and> listeners (g nd) = listeners nd \<and> anyListeners (g nd) = anyListeners nd
         \<and> counter (g nd) = counter nd \<and> validator (g nd) = validator nd
         \<and> validateOnChange (g nd) = validateOnChange nd \<and> parent (g nd) = parent nd)"

definition valEvent :: "(nat \<Rightarrow> bool) \<Rightarrow> event \<Rightarrow> bool" where
  "valEvent T e =
     (case e of
        Fired n k l b \<Rightarrow> T n \<and> \<not> b
      | FiredAny n l b \<Rightarrow> T n
      | Called n s \<Rightarrow> T n \<and> (s = ''setValueInternal'' \<or> s = ''setValues''))"

definition valInert :: "(world \<Rightarrow> 'a) \<Rightarrow> (nat \<Rightarrow> bool) \<Rightarrow> bool" where
  "valInert proj T \<longleftrightarrow>
     (\<forall>w x g. T x \<and> dataUpd g \<longrightarrow> proj (upd x g w) = proj w)
   \<and> (\<forall>w r. proj (w\<lparr>nextRef := r\<rparr>) = proj w)
   \<and> (\<forall>w es. (\<forall>e\<in>set es. valEvent T e) \<longrightarrow> proj (emit es w) = proj w)"

text \<open>Everything of the nodes that no engine of values or errors writes.\<close>

definition wiring ::
  "world \<Rightarrow> nat \<Rightarrow> (key \<Rightarrow> nat option) \<times> jsval \<times> (key \<Rightarrow> nat list) \<times> nat list \<times> nat
     \<times> (jsval \<Rightarrow> jsval) option \<times> bool \<times> (nat \<times> key) option" where
  "wiring w m =
     (childMap (nodes w m), state (nodes w m), listeners (nodes w m), anyListeners (nodes w m),
      counter (nodes w m), validator (nodes w m), validateOnChange (nodes w m), parent (nodes w m))"

definition tset :: "(nat \<Rightarrow> bool) \<Rightarrow> (nat \<Rightarrow> bool) \<Rightarrow> nat \<Rightarrow> bool \<Rightarrow> bool \<Rightarrow> nat \<Rightarrow> bool" where
  "tset D U n down up x \<longleftrightarrow> x = n \<or> (down \<and> D x) \<or> (up \<and> U x)"

definition scope :: "(nat \<Rightarrow> bool) \<Rightarrow> (nat \<Rightarrow> bool) \<Rightarrow> nat \<Rightarrow> bool \<Rightarrow> bool \<Rightarrow> world \<Rightarrow> bool" where
  "scope D U n down up w \<longleftrightarrow>
     (down \<longrightarrow> (\<forall>k c. childMap (nodes w n) k = Some c \<longrightarrow> D c))
   \<and> (up \<longrightarrow> (\<forall>p k. parent (nodes w n) = Some (p, k) \<longrightarrow> U p))"

definition closed :: "(nat \<Rightarrow> bool) \<Rightarrow> (nat \<Rightarrow> bool) \<Rightarrow> world \<Rightarrow> bool" where
  "closed D U w \<longleftrightarrow>
     (\<forall>x k c. D x \<and> childMap (nodes w x) k = Some c \<longrightarrow> D c)
   \<and> (\<forall>x p k. U x \<and> parent (nodes w x) = Some (p, k) \<longrightarrow> U p)"

definition noValidators :: "world \<Rightarrow> bool" where
  "noValidators w \<longleftrightarrow> (\<forall>m. validator (nodes w m) = None)"

definition keepsWiring :: "(world \<Rightarrow> 'a) \<Rightarrow> bool" where
  "keepsWiring proj \<longleftrightarrow> (\<forall>w w'. proj w' = proj w \<longrightarrow> wiring w' = wiring w)"

definition ok :: "(world \<Rightarrow> 'a) \<Rightarrow> (nat \<Rightarrow> bool) \<Rightarrow> (nat \<Rightarrow> bool) \<Rightarrow> world \<Rightarrow> bool" where
  "ok proj D U w \<longleftrightarrow> closed D U w \<and> (errInert proj \<or> noValidators w)"

text \<open>The steps of \<open>setValueInternal\<close>, named: the write with the entry event, the downward
  propagation, the upward propagation with the "any" fan-out, and the validation.\<close>

definition sviStore :: "nat \<Rightarrow> key \<Rightarrow> bool option \<Rightarrow> bool \<Rightarrow> jsval \<Rightarrow> world \<Rightarrow> world" where
  "sviStore n k d isDefault m' w =
     (let w1 = upd n (setTarget isDefault m') (emit [Called n ''setValueInternal''] w)
      in case d of
           None \<Rightarrow> w1
         | Some b \<Rightarrow> upd n (\<lambda>nd. nd\<lparr>dirtyMap := assign (dirtyMap nd) k b\<rparr>) w1)"

definition sviDown :: "nat \<Rightarrow> nat \<Rightarrow> key \<Rightarrow> jsval \<Rightarrow> bool \<Rightarrow> bool \<Rightarrow> world \<Rightarrow> world res" where
  "sviDown f n k v isDefault nc w2 =
     (if nc \<and> v \<noteq> Undefined then
        (case childMap (nodes w2 n) k of
           None \<Rightarrow> if inherited k then Some (Inl TypeError) else ret w2
         | Some c \<Rightarrow>
             thenDo (setValues f c v isDefault True False w2) (\<lambda>w3.
             ret (upd n (\<lambda>nd. nd\<lparr>dirtyMap := assign (dirtyMap nd) k (dirty (nodes w3 c))\<rparr>) w3)))
      else ret w2)"

definition sviUp :: "nat \<Rightarrow> nat \<Rightarrow> bool \<Rightarrow> bool \<Rightarrow> bool \<Rightarrow> world \<Rightarrow> world res" where
  "sviUp f n isDefault np fa w5 =
     (if fa then
        thenDo (if np then updateParentValues f n isDefault w5 else ret w5) (\<lambda>w6.
        ret (fireAnyListeners n False w6))
      else ret w5)"

definition sviValidate :: "nat \<Rightarrow> nat \<Rightarrow> bool \<Rightarrow> world \<Rightarrow> world res" where
  "sviValidate f n val w7 =
     (if validator (nodes w7 n) \<noteq> None \<and> val then validate f n w7 else ret w7)"

definition keptBySVI :: "(world \<Rightarrow> 'a) \<Rightarrow> (nat \<Rightarrow> bool) \<Rightarrow> (nat \<Rightarrow> bool) \<Rightarrow> nat \<Rightarrow> bool" where
  "keptBySVI proj D U f \<longleftrightarrow>
     (\<forall>n k v d val isD nc np fa w w'.
        ok proj D U w \<and> scope D U n nc (np \<and> fa) w \<and> valInert proj (tset D U n nc (np \<and> fa))
        \<and> setValueInternal f n k v d val isD nc np fa w = Some (Inr w') \<longrightarrow> proj w' = proj w)"

definition keptByUPV :: "(world \<Rightarrow> 'a) \<Rightarrow> (nat \<Rightarrow> bool) \<Rightarrow> (nat \<Rightarrow> bool) \<Rightarrow> nat \<Rightarrow> bool" where
  "keptByUPV proj D U f \<longleftrightarrow>
     (\<forall>n isD w w'.
        ok proj D U w \<and> scope D U n False True w \<and> valInert proj U
        \<and> updateParentValues f n isD w = Some (Inr w') \<longrightarrow> proj w' = proj w)"

definition keptBySetValue :: "(world \<Rightarrow> 'a) \<Rightarrow> (nat \<Rightarrow> bool) \<Rightarrow> (nat \<Rightarrow> bool) \<Rightarrow> nat \<Rightarrow> bool" where
  "keptBySetValue proj D U f \<longleftrightarrow>
     (\<forall>n k v val isD nc np fa w w' b.
        ok proj D U w \<and> scope D U n nc (np \<and> fa) w \<and> valInert proj (tset D U n nc (np \<and> fa))
        \<and> setValue f n k v val isD nc np fa w = Some (Inr (w', b)) \<longrightarrow> proj w' = proj w)"

definition keptBySetValues :: "(world \<Rightarrow> 'a) \<Rightarrow> (nat \<Rightarrow> bool) \<Rightarrow> (nat \<Rightarrow> bool) \<Rightarrow> nat \<Rightarrow> bool" where
  "keptBySetValues proj D U f \<longleftrightarrow>
     (\<forall>n vs isD nc np w w'.
        ok proj D U w \<and> scope D U n nc np w \<and> valInert proj (tset D U n nc np)
        \<and> setValues f n vs isD nc np w = Some (Inr w') \<longrightarrow> proj w' = proj w)"

text \<open>Two observations: the nodes of a set \<open>S\<close> in full but for their error maps (and the
  wiring of the others), and the events of the trace that satisfy \<open>P\<close>.\<close>

definition seen :: "(nat \<Rightarrow> bool) \<Rightarrow> world \<Rightarrow> nat \<Rightarrow> (jsval \<times> jsval \<times> (key \<times> bool) list) option" where
  "seen S w m =
     (if S m then Some (vals (nodes w m), defaultValues (nodes w m), dirtyMap (nodes w m)) else None)"

definition both :: "(world \<Rightarrow> 'a) \<Rightarrow> (world \<Rightarrow> 'b) \<Rightarrow> world \<Rightarrow> 'a \<times> 'b" where
  "both p q w = (p w, q w)"

definition seenWired :: "(nat \<Rightarrow> bool) \<Rightarrow> world \<Rightarrow> _" where
  "seenWired S = both (seen S) wiring"

definition heard :: "(event \<Rightarrow> bool) \<Rightarrow> world \<Rightarrow> event list" where
  "heard P w = filter P (trace w)"

text \<open>\<open>D\<close> holds the nodes below \<open>n\<close> and \<open>U\<close> the nodes above it: the children of \<open>n\<close> are
  in \<open>D\<close>, its parent is in \<open>U\<close>, \<open>D\<close> is closed under children and \<open>U\<close> under parents,
  and \<open>n\<close> is in neither (no node is its own ancestor).\<close>

definition treeAt :: "(nat \<Rightarrow> bool) \<Rightarrow> (nat \<Rightarrow> bool) \<Rightarrow> nat \<Rightarrow> world \<Rightarrow> bool" where
  "treeAt D U n w \<longleftrightarrow>
     closed D U w \<and> scope D U n True True w \<and> \<not> D n \<and> \<not> U n \<and> (\<forall>x. D x \<longrightarrow> \<not> U x)"
text \<open>A root node over \<open>{address: {city: "Paris"}}\<close> (node 1) with the validator given, a
  child node for \<open>address\<close> (node 2), a listener of the root on \<open>address\<close>, and an "any"
  listener on each of the two nodes.\<close>

definition family :: "(jsval \<Rightarrow> jsval) option \<Rightarrow> world res" where
  "family vf =
     (let addr = Obj 1000 [(Name ''address'', Obj 1001 [(Name ''city'', Str ''Paris'')])] in
      thenDo (newFormState addr addr (Obj 1002 []) vf True emptyWorld) (\<lambda>(p, w).
      thenDo (newChildFormState p (Name ''address'') w) (\<lambda>(c, w).
      thenDo (listen p (Name ''address'') w) (\<lambda>(w, i).
      let (w, j) = listenAny c w;
          (w, j) = listenAny p w
      in ret w))))"

definition worldOf :: "world res \<Rightarrow> world" where
  "worldOf m = (case m of Some (Inr w) \<Rightarrow> w | _ \<Rightarrow> emptyWorld)"

definition familyWorld :: world where
  "familyWorld = worldOf (family None)"

text \<open>The family after \<open>childNode.setValue("city", "Rome")\<close>.\<close>

definition afterRome :: world where
  "afterRome =
     worldOf (thenDo (setValue 5 2 (Name ''city'') (Str ''Rome'') True False True True True familyWorld)
                (\<lambda>(w, b). ret w))"

text \<open>The family after \<open>rootNode.setValue("zip", {x: 1})\<close>, and after
  \<open>rootNode.setValue("zip", null)\<close>.\<close>

definition afterZip :: world where
  "afterZip =
     worldOf (thenDo (setValue 5 1 (Name ''zip'') (Obj 1005 [(Name ''x'', Num 1)])
                        True False True True True familyWorld)
                (\<lambda>(w, b). ret w))"

definition afterNull :: world where
  "afterNull =
     worldOf (thenDo (setValue 5 1 (Name ''zip'') Null True False True True True familyWorld)
                (\<lambda>(w, b). ret w))"

text \<open>Nodes are numbered by \<open>formId\<close> in the order of their construction, and a child node
  is constructed from its parent: in a world made through the constructors every parent has
  a smaller number than its child.\<close>

definition ordered :: "world \<Rightarrow> bool" where
  "ordered w \<longleftrightarrow>
     (\<forall>n p k. parent (nodes w n) = Some (p, k) \<longrightarrow> p < n)
   \<and> (\<forall>n k c. childMap (nodes w n) k = Some c \<longrightarrow> n < c)"



text \<open>The family after \<open>rootNode.setValue("address", undefined)\<close>.\<close>

definition afterRemoval :: world where
  "afterRemoval =
     worldOf (thenDo (setValue 5 1 (Name ''address'') Undefined True False True True True familyWorld)
                (\<lambda>(w, b). ret w))"

text \<open>Events by kind: the entries into a method of the node \<open>c\<close>, and the calls of the
  field listeners of \<open>p\<close> for the key \<open>name\<close>.\<close>

fun nodeOf :: "event \<Rightarrow> nat" where
  "nodeOf (Fired n k l b) = n"
| "nodeOf (FiredAny n l b) = n"
| "nodeOf (Called n s) = n"

definition callsOn :: "nat \<Rightarrow> event \<Rightarrow> bool" where
  "callsOn c e = (case e of Called n s \<Rightarrow> n = c | _ \<Rightarrow> False)"


text \<open>The events of one run of \<open>setValueInternal\<close> on the node itself: the entry, the field
  listeners, the "any" listeners.\<close>

definition ownEvents :: "world \<Rightarrow> nat \<Rightarrow> key \<Rightarrow> event list \<times> event list" where
  "ownEvents w n k =
     (Called n ''setValueInternal'' # map (\<lambda>l. Fired n k l False) (listeners (nodes w n) k),
      map (\<lambda>l. FiredAny n l False) (anyListeners (nodes w n)))"





text \<open>What \<open>setState\<close> leaves alone (every field but the state), the values it may leave
  in a state (the one given, or a \<open>memberCopy\<close> of it; the copy of \<open>null\<close> is \<open>{}\<close>), the nodes it reaches with \<open>notifyChild\<close> (the
  node, its children under the keys present in its values, and theirs in turn), and the
  events in which a listener got \<open>true\<close>.\<close>

definition allButState ::
  "node \<Rightarrow> jsval \<times> jsval \<times> (key \<Rightarrow> nat option) \<times> (key \<times> bool) list \<times> (key \<times> jsval) list
     \<times> (key \<Rightarrow> nat list) \<times> nat list \<times> nat \<times> (jsval \<Rightarrow> jsval) option \<times> bool \<times> (nat \<times> key) option" where
  "allButState nd =
     (vals nd, defaultValues nd, childMap nd, dirtyMap nd, errorMap nd, listeners nd,
      anyListeners nd, counter nd, validator nd, validateOnChange nd, parent nd)"

fun isCopyOf :: "jsval \<Rightarrow> jsval \<Rightarrow> bool" where
  "isCopyOf (Arr r xs) (Arr r' ys) = (xs = ys)"
| "isCopyOf (Obj r xs) (Obj r' ys) = (xs = ys)"
| "isCopyOf Null (Obj r' ys) = (ys = [])"
| "isCopyOf a b = False"

definition like :: "jsval \<Rightarrow> jsval \<Rightarrow> bool" where
  "like st x \<longleftrightarrow> x = st \<or> isCopyOf st x"

definition loud :: "event \<Rightarrow> bool" where
  "loud e = (case e of Fired n k l b \<Rightarrow> b | FiredAny n l b \<Rightarrow> b | Called n s \<Rightarrow> False)"

inductive covered :: "world \<Rightarrow> nat \<Rightarrow> nat \<Rightarrow> bool" for w where
  self: "covered w n n"
| step: "objectKeys (vals (nodes w n)) = Inr ks \<Longrightarrow> k \<in> set ks \<Longrightarrow> childMap (nodes w n) k = Some c
         \<Longrightarrow> covered w c m \<Longrightarrow> covered w n m"

definition stInv :: "jsval \<Rightarrow> world \<Rightarrow> world \<Rightarrow> bool" where
  "stInv st w w' \<longleftrightarrow>
     (\<forall>m. state (nodes w' m) = state (nodes w m) \<or> like st (state (nodes w' m)))
   \<and> (\<forall>m. allButState (nodes w' m) = allButState (nodes w m))
   \<and> set (trace w) \<subseteq> set (trace w')
   \<and> filter loud (trace w') = filter loud (trace w)"

definition setStateOk :: "nat \<Rightarrow> bool" where
  "setStateOk f \<longleftrightarrow>
     (\<forall>n st nc np w w'. setState f n st nc np w = Some (Inr w') \<longrightarrow>
        stInv st w w' \<and> like st (state (nodes w' n))
        \<and> (\<forall>ks. objectKeys (vals (nodes w n)) = Inr ks \<longrightarrow>
              (\<forall>k\<in>set ks. \<forall>l\<in>set (listeners (nodes w n) k). Fired n k l False \<in> set (trace w')))
        \<and> (\<forall>l\<in>set (anyListeners (nodes w n)). FiredAny n l False \<in> set (trace w'))
        \<and> (nc \<longrightarrow> (\<forall>m. covered w n m \<longrightarrow> like st (state (nodes w' m)))))"

definition updateParentStateOk :: "nat \<Rightarrow> bool" where
  "updateParentStateOk f \<longleftrightarrow>
     (\<forall>n w w'. updateParentState f n w = Some (Inr w') \<longrightarrow> stInv (state (nodes w n)) w w')"

text \<open>A root node over \<open>{}\<close> with state \<open>{isSubmitting: false}\<close> (node 1), a child node
  for the absent field \<open>a\<close> (node 2), and a listener of the root on \<open>a\<close>; then
  \<open>rootNode.setState({isSubmitting: true})\<close>. And the family after the same call.\<close>

definition emptyFamily :: world where
  "emptyFamily =
     worldOf (thenDo (newFormState (Obj 1000 []) (Obj 1001 [])
                        (Obj 1002 [(Name ''isSubmitting'', JBool False)]) None True emptyWorld)
                (\<lambda>(p, w).
              thenDo (newChildFormState p (Name ''a'') w) (\<lambda>(c, w).
              thenDo (listen p (Name ''a'') w) (\<lambda>(w, i). ret w))))"

definition submitting :: jsval where
  "submitting = Obj 1005 [(Name ''isSubmitting'', JBool True)]"

definition afterState :: world where
  "afterState = worldOf (setState 5 1 submitting True True familyWorld)"

text \<open>The events of one node. A root node over the array \<open>[1, 2, 3]\<close>. Two calls in a
  row of \<open>setValue\<close> with the same arguments, observed: the two results, what the node holds
  under the key after the first call, and the trace of the second world.\<close>

definition onNode :: "nat \<Rightarrow> event \<Rightarrow> bool" where
  "onNode n e = (nodeOf e = n)"

definition arrayWorld :: world where
  "arrayWorld =
     worldOf (thenDo (newFormState (Arr 1000 [Num 1, Num 2, Num 3]) (Arr 1001 []) (Obj 1002 [])
                        None True emptyWorld)
                (\<lambda>(n, w). ret w))"

definition twice :: "nat \<Rightarrow> key \<Rightarrow> jsval \<Rightarrow> world \<Rightarrow> (bool \<times> (err + jsval) \<times> bool \<times> event list) res" where
  "twice n k v w =
     thenDo (setValue 5 n k v True False True True True w) (\<lambda>(wa, a).
     thenDo (setValue 5 n k v True False True True True wa) (\<lambda>(wb, b).
     ret (a, getProp (vals (nodes wa n)) k, b, trace wb)))"


definition anyTrueOn :: "nat \<Rightarrow> event \<Rightarrow> bool" where
  "anyTrueOn m e = (case e of FiredAny n l b \<Rightarrow> n = m \<and> b | _ \<Rightarrow> False)"












text \<open>The ancestors of a node; the nodes a run of \<open>setState\<close> on \<open>n\<close> can reach (the node,
  with \<open>notifyChild\<close> the nodes below it through keys present in the values, with
  \<open>notifyParent\<close> the ancestors of all these); the events such a run may add (a listener
  called with \<open>false\<close>, a field listener only for a key present in the values of its node, an
  entry into \<open>setState\<close>); and the events added to the trace from \<open>w\<close> to \<open>w'\<close>.\<close>

inductive above :: "world \<Rightarrow> nat \<Rightarrow> nat \<Rightarrow> bool" for w where
  direct: "parent (nodes w x) = Some (p, k) \<Longrightarrow> above w x p"
| further: "parent (nodes w x) = Some (p, k) \<Longrightarrow> above w p q \<Longrightarrow> above w x q"

definition touched :: "world \<Rightarrow> nat \<Rightarrow> bool \<Rightarrow> bool \<Rightarrow> nat \<Rightarrow> bool" where
  "touched w n nc np m \<longleftrightarrow>
     m = n \<or> (nc \<and> covered w n m)
     \<or> (np \<and> (\<exists>x. (x = n \<or> (nc \<and> covered w n x)) \<and> above w x m))"

definition present :: "world \<Rightarrow> nat \<Rightarrow> key \<Rightarrow> bool" where
  "present w m k = (case objectKeys (vals (nodes w m)) of Inl e \<Rightarrow> False | Inr ks \<Rightarrow> k \<in> set ks)"

definition stateEvent :: "world \<Rightarrow> event \<Rightarrow> bool" where
  "stateEvent w e =
     (case e of
        Fired m k l b \<Rightarrow> \<not> b \<and> present w m k
      | FiredAny m l b \<Rightarrow> \<not> b
      | Called m s \<Rightarrow> s = ''setState'')"

definition news :: "world \<Rightarrow> world \<Rightarrow> event list" where
  "news w w' = drop (length (trace w)) (trace w')"

definition stMore :: "nat \<Rightarrow> jsval \<Rightarrow> bool \<Rightarrow> bool \<Rightarrow> world \<Rightarrow> world \<Rightarrow> event list \<Rightarrow> bool" where
  "stMore n st nc np w w' evs \<longleftrightarrow>
     trace w' = trace w @ evs \<and> list_all (stateEvent w) evs
   \<and> Called n ''setState'' \<in> set evs
   \<and> (\<forall>k l. present w n k \<and> l \<in> set (listeners (nodes w n) k) \<longrightarrow> Fired n k l False \<in> set evs)
   \<and> (\<forall>l. l \<in> set (anyListeners (nodes w n)) \<longrightarrow> FiredAny n l False \<in> set evs)
   \<and> (nc \<longrightarrow> (\<forall>m. covered w n m \<longrightarrow> Called m ''setState'' \<in> set evs))
   \<and> (np \<longrightarrow> (\<forall>q. above w n q \<longrightarrow> like st (state (nodes w' q)) \<and> Called q ''setState'' \<in> set evs))
   \<and> (\<forall>m. \<not> touched w n nc np m \<longrightarrow>
          state (nodes w' m) = state (nodes w m) \<and> (\<forall>e. e \<in> set evs \<longrightarrow> nodeOf e \<noteq> m))"

definition upMore :: "nat \<Rightarrow> world \<Rightarrow> world \<Rightarrow> event list \<Rightarrow> bool" where
  "upMore n w w' evs \<longleftrightarrow>
     trace w' = trace w @ evs \<and> list_all (stateEvent w) evs
   \<and> (\<forall>q. above w n q \<longrightarrow>
          like (state (nodes w n)) (state (nodes w' q)) \<and> Called q ''setState'' \<in> set evs)
   \<and> (\<forall>m. \<not> above w n m \<longrightarrow>
          state (nodes w' m) = state (nodes w m) \<and> (\<forall>e. e \<in> set evs \<longrightarrow> nodeOf e \<noteq> m))"

definition setStateMore :: "nat \<Rightarrow> bool" where
  "setStateMore f \<longleftrightarrow>
     (\<forall>n st nc np w w'. setState f n st nc np w = Some (Inr w') \<longrightarrow> (\<exists>evs. stMore n st nc np w w' evs))"

definition updateParentStateMore :: "nat \<Rightarrow> bool" where
  "updateParentStateMore f \<longleftrightarrow>
     (\<forall>n w w'. updateParentState f n w = Some (Inr w') \<longrightarrow> (\<exists>evs. upMore n w w' evs))"

text \<open>The calls of the field listeners of \<open>n\<close> for the keys \<open>ks\<close>, in order.\<close>

definition fieldEvents :: "world \<Rightarrow> nat \<Rightarrow> key list \<Rightarrow> event list" where
  "fieldEvents w n ks = concat (map (\<lambda>k. map (\<lambda>l. Fired n k l False) (listeners (nodes w n) k)) ks)"

text \<open>The empty family after \<open>rootNode.setState({isSubmitting: true})\<close>; the family after the
  same call on the child node, and after the call on the root without any propagation.\<close>

definition afterEmptyState :: world where
  "afterEmptyState = worldOf (setState 5 1 submitting True True emptyFamily)"

definition afterChildState :: world where
  "afterChildState = worldOf (setState 5 2 submitting True True familyWorld)"

definition afterQuietState :: world where
  "afterQuietState = worldOf (setState 5 1 submitting False False familyWorld)"




section \<open>Unfolding the engine\<close>

lemma thenDo_None [simp]: "thenDo None g = None"
  by (simp add: thenDo_def)

lemma thenDo_Inl [simp]: "thenDo (Some (Inl e)) g = Some (Inl e)"
  by (simp add: thenDo_def)

lemma thenDo_Inr [simp]: "thenDo (Some (Inr x)) g = g x"
  by (simp add: thenDo_def)

lemma thenDo_ret [simp]: "thenDo (ret x) g = g x"
  by (simp add: thenDo_def ret_def)

lemma thenDo_lift [simp]: "thenDo (lift (Inr x)) g = g x" "thenDo (lift (Inl e)) g = Some (Inl e)"
  by (simp_all add: thenDo_def lift_def)

lemma thenDo_eq_Inr:
  "thenDo m g = Some (Inr y) \<longleftrightarrow> (\<exists>x. m = Some (Inr x) \<and> g x = Some (Inr y))"
  by (auto simp: thenDo_def split: option.splits sum.splits)

lemma ret_eq [simp]: "ret x = Some (Inr y) \<longleftrightarrow> x = y" "ret x \<noteq> None" "ret x \<noteq> Some (Inl e)"
  by (auto simp: ret_def)

lemma lift_eq [simp]: "lift x = Some y \<longleftrightarrow> x = y" "lift x \<noteq> None"
  by (auto simp: lift_def)

lemma setValueInternal_0 [simp]: "setValueInternal 0 n k v d val isDefault nc np fa w = None"
  by (simp add: setValueInternal_def)

lemma setValueInternal_Suc:
  "setValueInternal (Suc f) = setValueInternalBody (validate f) (setValues f) (updateParentValues f)"
  by (simp add: setValueInternal_def setValues_def updateParentValues_def)

lemma updateParentValues_0 [simp]: "updateParentValues 0 n isDefault w = None"
  by (simp add: updateParentValues_def)

lemma updateParentValues_Suc:
  "updateParentValues (Suc f) = updateParentValuesBody (setValueInternal f)"
  by (simp add: setValueInternal_def updateParentValues_def)

lemma setValue_0 [simp]: "setValue 0 n k v val isDefault nc np fa w = None"
  by (simp add: setValue_def)

lemma setValue_Suc: "setValue (Suc f) = setValueBody (setValueInternal f)"
  by (simp add: setValueInternal_def setValue_def)

lemma setValues_0 [simp]: "setValues 0 n vs isDefault nc np w = None"
  by (simp add: setValues_def)

lemma setValues_Suc:
  "setValues (Suc f) = setValuesBody (validate f) (setValue f) (updateParentValues f)"
  by (simp add: setValues_def setValue_def updateParentValues_def)

section \<open>The error engine changes error maps only\<close>

lemma errInert_upd: "errInert proj \<Longrightarrow> proj (upd x (\<lambda>nd. nd\<lparr>errorMap := em nd\<rparr>) w) = proj w"
  by (simp add: errInert_def)

lemma errInert_nextRef: "errInert proj \<Longrightarrow> proj (w\<lparr>nextRef := r\<rparr>) = proj w"
  by (simp add: errInert_def)

lemma errInert_emit: "errInert proj \<Longrightarrow> \<forall>e\<in>set es. errEvent e \<Longrightarrow> proj (emit es w) = proj w"
  by (simp add: errInert_def)

lemma errInert_fire: "errInert proj \<Longrightarrow> proj (fireListeners n k False w) = proj w"
  by (simp add: fireListeners_def errInert_emit errEvent_def)

lemma errInert_fireAny: "errInert proj \<Longrightarrow> proj (fireAnyListeners n False w) = proj w"
  by (simp add: fireAnyListeners_def errInert_emit errEvent_def)

lemma errInert_called: "errInert proj \<Longrightarrow> proj (emit [Called n ''setErrors''] w) = proj w"
  by (simp add: errInert_emit errEvent_def)

lemma forEach_keeps:
  assumes "\<And>w k w'. g w k = Some (Inr w') \<Longrightarrow> proj w' = proj w"
  shows "forEach ks g w = Some (Inr w') \<Longrightarrow> proj w' = proj w"
proof (induction ks arbitrary: w)
  case Nil
  then show ?case by simp
next
  case (Cons k ks)
  then obtain w1 where "g w k = Some (Inr w1)" "forEach ks g w1 = Some (Inr w')"
    by (auto simp: thenDo_eq_Inr)
  then show ?case using assms Cons.IH by metis
qed

lemma orEmpty_keeps: "errInert proj \<Longrightarrow> orEmpty e w = (e', w') \<Longrightarrow> proj w' = proj w"
  by (auto simp: orEmpty_def errInert_nextRef split: if_splits)

lemma copyIn_keeps: "errInert proj \<Longrightarrow> copyIn v w = Some (Inr (c, w')) \<Longrightarrow> proj w' = proj w"
  by (auto simp: copyIn_def errInert_nextRef split: sum.splits)

lemma errorEngine_keeps:
  assumes I: "errInert proj"
  shows "(\<forall>n k e nc np fa w w'. setError f n k e nc np fa w = Some (Inr w') \<longrightarrow> proj w' = proj w)
       \<and> (\<forall>n errors nc np w w'. setErrors f n errors nc np w = Some (Inr w') \<longrightarrow> proj w' = proj w)
       \<and> (\<forall>n w w'. updateParentErrors f n w = Some (Inr w') \<longrightarrow> proj w' = proj w)"
proof (induction f)
  case 0
  show ?case by simp
next
  case (Suc f)
  then have E: "\<And>n k e nc np fa w w'. setError f n k e nc np fa w = Some (Inr w') \<Longrightarrow> proj w' = proj w"
    and Es: "\<And>n errors nc np w w'. setErrors f n errors nc np w = Some (Inr w') \<Longrightarrow> proj w' = proj w"
    and U: "\<And>n w w'. updateParentErrors f n w = Some (Inr w') \<Longrightarrow> proj w' = proj w"
    by blast+
  have 1: "proj w' = proj w" if "setError (Suc f) n k e nc np fa w = Some (Inr w')" for n k e nc np fa w w'
    using that
    by (auto simp: thenDo_eq_Inr Let_def errInert_upd[OF I] errInert_fire[OF I] errInert_fireAny[OF I]
        dest!: Es U orEmpty_keeps[OF I] split: if_splits option.splits prod.splits)
  have 2: "proj w' = proj w" if "setErrors (Suc f) n errors nc np w = Some (Inr w')" for n errors nc np w w'
  proof -
    from that obtain newKeys w1 w2 where
      a: "forEach (mostKeysOf newKeys (keyOrder (map fst (errorMap (nodes (emit [Called n ''setErrors''] w) n)))))
            (\<lambda>w k. thenDo (lift (getProp errors k)) (\<lambda>e. setError f n k e nc np False w))
            (emit [Called n ''setErrors''] w) = Some (Inr w1)"
      and b: "(if np then updateParentErrors f n w1 else ret w1) = Some (Inr w2)"
      and c: "w' = fireAnyListeners n False w2"
      by (auto simp: thenDo_eq_Inr Let_def)
    have "proj w1 = proj (emit [Called n ''setErrors''] w)"
      by (rule forEach_keeps[OF _ a]) (auto simp: thenDo_eq_Inr dest: E)
    moreover have "proj w2 = proj w1" using b by (auto dest: U split: if_splits)
    ultimately show ?thesis using c by (simp add: errInert_fireAny[OF I] errInert_called[OF I])
  qed
  have 3: "proj w' = proj w" if "updateParentErrors (Suc f) n w = Some (Inr w')" for n w w'
    using that
    by (auto simp: thenDo_eq_Inr dest!: E copyIn_keeps[OF I] split: if_splits option.splits prod.splits)
  show ?case using 1 2 3 by blast
qed

section \<open>The copy primitive\<close>

text \<open>
  C9, as the code has it: \<open>memberCopy\<close> raises its error exactly on the values whose
  \<open>typeof\<close> is not \<open>"object"\<close> (undefined, booleans, numbers, strings), and a node
  cannot be constructed over such values. Arrays and objects are copied with the same
  members, and \<open>null\<close>, whose \<open>typeof\<close> is \<open>"object"\<close>, is copied to an empty object
  without an error.
\<close>

theorem memberCopy_shapes:
  "(typeof v = ''object'' \<longrightarrow> (\<exists>c. memberCopy r v = Inr c \<and> (if v = Null then c = Obj r [] else sameContent c v)))
   \<and> (typeof v \<noteq> ''object'' \<longrightarrow>
        memberCopy r v = Inl CopyError \<and> newFormState v ds st vf voc w = Some (Inl CopyError))"
  by (cases v) (simp_all add: newFormState_def construct_def copyIn_def)

theorem memberCopy_shapes_witness:
  "typeof (Arr 1000 [Num 1]) = ''object'' \<and> memberCopy 0 (Arr 1000 [Num 1]) = Inr (Arr 0 [Num 1])
   \<and> typeof (Str ''x'') \<noteq> ''object'' \<and> memberCopy 0 (Str ''x'') = Inl CopyError"
  using memberCopy_shapes [of "Arr 1000 [Num 1]" 0] memberCopy_shapes [of "Str ''x''" 0]
  by simp

text \<open>C9 as stated fails at \<open>null\<close>: it is neither an array nor a keyed object, and
  \<open>memberCopy(null)\<close> returns \<open>{}\<close>.\<close>

theorem memberCopy_null_counterexample:
  "\<not> isArray Null \<and> \<not> isKeyed Null \<and> memberCopy 0 Null = Inr (Obj 0 [])"
  by (simp add: isKeyed_def)

section \<open>Bulk replace and the keys it visits\<close>

text \<open>
  C3 at a failing input. \<open>setValues\<close> and \<open>setErrors\<close> walk the longer of the two key
  lists, not their union. On a node holding \<open>{a: 1}\<close>, \<open>setValues({b: 2})\<close> calls
  \<open>setValue\<close> for \<open>b\<close> only (one entry into \<open>setValueInternal\<close>), so \<open>a\<close> stays; on a
  node whose error map is \<open>{a: "x"}\<close>, \<open>setErrors({b: "y"})\<close> visits \<open>a\<close> only: it clears \<open>a\<close> and
  never records the error of \<open>b\<close>.
\<close>

theorem setValues_longer_list_only:
  "observe (\<lambda>w. (vals (nodes w 1), trace w)) runSetValuesAB =
     Some (Inr (Obj 0 [(Name ''a'', Num 1), (Name ''b'', Num 2)],
                [Called 1 ''setValues'', Called 1 ''setValueInternal'']))
   \<and> observe (\<lambda>w. errorMap (nodes w 1)) runSetErrorsAB =
     Some (Inr [])"
  by code_simp

section \<open>The value engine writes only the nodes it reaches\<close>

lemma wiring_fields:
  assumes "wiring w' = wiring w"
  shows "childMap (nodes w' m) = childMap (nodes w m)" "parent (nodes w' m) = parent (nodes w m)"
    "validator (nodes w' m) = validator (nodes w m)" "listeners (nodes w' m) = listeners (nodes w m)"
    "anyListeners (nodes w' m) = anyListeners (nodes w m)" "state (nodes w' m) = state (nodes w m)"
  using fun_cong[OF assms, of m] by (simp_all add: wiring_def)

lemma wiring_closed: "wiring w' = wiring w \<Longrightarrow> closed D U w' = closed D U w"
  using wiring_fields(1,2)[of w' w] by (simp add: closed_def)

lemma wiring_scope: "wiring w' = wiring w \<Longrightarrow> scope D U n down up w' = scope D U n down up w"
  using wiring_fields(1,2)[of w' w] by (simp add: scope_def)

lemma wiring_noValidators: "wiring w' = wiring w \<Longrightarrow> noValidators w' = noValidators w"
  using wiring_fields(3)[of w' w] by (simp add: noValidators_def)

lemma valEvent_mono: "valEvent T' e \<Longrightarrow> (\<And>x. T' x \<Longrightarrow> T x) \<Longrightarrow> valEvent T e"
  by (cases e) (simp_all add: valEvent_def)

lemma valInert_mono:
  assumes "valInert proj T" and sub: "\<And>x. T' x \<Longrightarrow> T x"
  shows "valInert proj T'"
proof -
  have "proj (emit es w) = proj w" if "\<forall>e\<in>set es. valEvent T' e" for es w
  proof -
    have "\<forall>e\<in>set es. valEvent T e" using that sub valEvent_mono by blast
    then show ?thesis using assms(1) by (simp add: valInert_def)
  qed
  moreover have "proj (upd x g w) = proj w" if "T' x" "dataUpd g" for x g w
    using that sub assms(1) by (simp add: valInert_def)
  moreover have "proj (w\<lparr>nextRef := r\<rparr>) = proj w" for w r
    using assms(1) by (simp add: valInert_def)
  ultimately show ?thesis by (simp add: valInert_def)
qed

lemma valInert_upd: "valInert proj T \<Longrightarrow> T x \<Longrightarrow> dataUpd g \<Longrightarrow> proj (upd x g w) = proj w"
  by (simp add: valInert_def)

lemma valInert_nextRef: "valInert proj T \<Longrightarrow> proj (w\<lparr>nextRef := r\<rparr>) = proj w"
  by (simp add: valInert_def)

lemma valInert_emit: "valInert proj T \<Longrightarrow> \<forall>e\<in>set es. valEvent T e \<Longrightarrow> proj (emit es w) = proj w"
  by (simp add: valInert_def)

lemma valInert_fire: "valInert proj T \<Longrightarrow> T n \<Longrightarrow> proj (fireListeners n k False w) = proj w"
  by (simp add: fireListeners_def valInert_emit valEvent_def)

lemma valInert_fireAny: "valInert proj T \<Longrightarrow> T n \<Longrightarrow> proj (fireAnyListeners n b w) = proj w"
  by (simp add: fireAnyListeners_def valInert_emit valEvent_def)

lemma dataUpd_setTarget [simp]: "dataUpd (setTarget isDefault m)"
  by (simp add: dataUpd_def setTarget_def)

lemma dataUpd_dirtyMap [simp]: "dataUpd (\<lambda>nd. nd\<lparr>dirtyMap := h nd\<rparr>)"
  by (simp add: dataUpd_def)
lemma setErrors_keeps:
  "errInert proj \<Longrightarrow> setErrors f n e nc np w = Some (Inr w') \<Longrightarrow> proj w' = proj w"
  using errorEngine_keeps[of proj f] by blast


lemma validate_keeps:
  "errInert proj \<Longrightarrow> validate f n w = Some (Inr w') \<Longrightarrow> proj w' = proj w"
  by (auto simp: validate_def split: option.splits dest: setErrors_keeps)

lemma forEach_keeps_inv:
  assumes "\<And>w k w'. proj w = a \<Longrightarrow> g w k = Some (Inr w') \<Longrightarrow> proj w' = a"
  shows "proj w = a \<Longrightarrow> forEach ks g w = Some (Inr w') \<Longrightarrow> proj w' = a"
proof (induction ks arbitrary: w)
  case Nil
  then show ?case by simp
next
  case (Cons k ks)
  then obtain w1 where "g w k = Some (Inr w1)" "forEach ks g w1 = Some (Inr w')"
    by (auto simp: thenDo_eq_Inr)
  then show ?case using assms Cons.IH Cons.prems(1) by metis
qed

lemma ok_cong: "keepsWiring proj \<Longrightarrow> proj w' = proj w \<Longrightarrow> ok proj D U w' = ok proj D U w"
  unfolding ok_def keepsWiring_def using wiring_closed wiring_noValidators by metis

lemma scope_cong:
  "keepsWiring proj \<Longrightarrow> proj w' = proj w \<Longrightarrow> scope D U n down up w' = scope D U n down up w"
  unfolding keepsWiring_def using wiring_scope by metis

lemma scope_weaken:
  "scope D U n down up w \<Longrightarrow> (down' \<longrightarrow> down) \<Longrightarrow> (up' \<longrightarrow> up) \<Longrightarrow> scope D U n down' up' w"
  by (auto simp: scope_def)

lemma setValueInternal_steps:
  "setValueInternal (Suc f) n k v d val isDefault nc np fa w =
     thenDo (lift (if v = Undefined then delProp (target isDefault (nodes w n)) k
                   else setProp (target isDefault (nodes w n)) k v)) (\<lambda>m'.
     thenDo (sviDown f n k v isDefault nc (sviStore n k d isDefault m' w)) (\<lambda>w4.
     thenDo (sviUp f n isDefault np fa (fireListeners n k False w4)) (\<lambda>w7.
     sviValidate f n val w7)))"
  by (simp add: setValueInternal_Suc setValueInternalBody_def sviStore_def sviDown_def sviUp_def
      sviValidate_def Let_def emit_def)

lemma sviStore_keeps: "valInert proj T \<Longrightarrow> T n \<Longrightarrow> proj (sviStore n k d isDefault m' w) = proj w"
  by (simp add: sviStore_def Let_def valInert_upd valInert_emit valEvent_def split: option.splits)

lemma sviDown_keeps:
  assumes IH: "keptBySetValues proj D U f" and W: "keepsWiring proj"
    and ok: "ok proj D U w" and sc: "scope D U n nc up w"
    and vi: "valInert proj (tset D U n nc up)"
    and run: "sviDown f n k v isDefault nc w = Some (Inr w')"
  shows "proj w' = proj w"
proof (cases "nc \<and> v \<noteq> Undefined")
  case False
  then show ?thesis using run by (auto simp: sviDown_def)
next
  case True
  show ?thesis
  proof (cases "childMap (nodes w n) k")
    case None
    then show ?thesis using run True by (auto simp: sviDown_def split: if_splits)
  next
    case (Some c)
    from run True Some obtain w3 where
      r: "setValues f c v isDefault True False w = Some (Inr w3)"
      and e: "w' = upd n (\<lambda>nd. nd\<lparr>dirtyMap := assign (dirtyMap nd) k (dirty (nodes w3 c))\<rparr>) w3"
      by (auto simp: sviDown_def thenDo_eq_Inr)
    have Dc: "D c" using sc True Some by (auto simp: scope_def)
    have sc': "scope D U c True False w"
      using ok Dc by (auto simp: scope_def ok_def closed_def)
    have vi': "valInert proj (tset D U c True False)"
      by (rule valInert_mono[OF vi]) (use Dc True in \<open>auto simp: tset_def\<close>)
    have "proj w3 = proj w"
      using IH ok sc' vi' r unfolding keptBySetValues_def by blast
    moreover have "proj w' = proj w3"
      unfolding e by (rule valInert_upd[OF vi]) (simp_all add: tset_def)
    ultimately show ?thesis by simp
  qed
qed

lemma sviUp_keeps:
  assumes IH: "keptByUPV proj D U f" and W: "keepsWiring proj"
    and ok: "ok proj D U w" and sc: "scope D U n nc (np \<and> fa) w"
    and vi: "valInert proj (tset D U n nc (np \<and> fa))"
    and run: "sviUp f n isDefault np fa w = Some (Inr w')"
  shows "proj w' = proj w"
proof (cases "fa")
  case False
  then show ?thesis using run by (simp add: sviUp_def)
next
  case fa: True
  have Tn: "tset D U n nc (np \<and> fa) n" by (simp add: tset_def)
  show ?thesis
  proof (cases np)
    case False
    then show ?thesis using run fa valInert_fireAny[OF vi Tn] by (auto simp: sviUp_def)
  next
    case True
    from run fa True obtain w6 where
      r: "updateParentValues f n isDefault w = Some (Inr w6)" and e: "w' = fireAnyListeners n False w6"
      by (auto simp: sviUp_def thenDo_eq_Inr)
    have sc': "scope D U n False True w"
      using scope_weaken[OF sc, of False True] fa True by simp
    have vi': "valInert proj U"
      by (rule valInert_mono[OF vi]) (use fa True in \<open>auto simp: tset_def\<close>)
    have "proj w6 = proj w" using IH ok sc' vi' r unfolding keptByUPV_def by blast
    then show ?thesis using e valInert_fireAny[OF vi Tn] by simp
  qed
qed

lemma sviValidate_keeps:
  assumes ok: "ok proj D U w" and run: "sviValidate f n val w = Some (Inr w')"
  shows "proj w' = proj w"
proof (cases "validator (nodes w n) \<noteq> None \<and> val")
  case False
  then show ?thesis using run by (auto simp: sviValidate_def)
next
  case True
  then have "\<not> noValidators w" by (auto simp: noValidators_def)
  then have "errInert proj" using ok by (simp add: ok_def)
  then show ?thesis using run True validate_keeps by (auto simp: sviValidate_def)
qed

lemma keptBySVI_Suc:
  assumes IH1: "keptBySetValues proj D U f" and IH2: "keptByUPV proj D U f" and W: "keepsWiring proj"
  shows "keptBySVI proj D U (Suc f)"
  unfolding keptBySVI_def
proof (intro allI impI, elim conjE)
  fix n k v d val isD nc np fa w w'
  assume ok: "ok proj D U w" and sc: "scope D U n nc (np \<and> fa) w"
    and vi: "valInert proj (tset D U n nc (np \<and> fa))"
    and run: "setValueInternal (Suc f) n k v d val isD nc np fa w = Some (Inr w')"
  have Tn: "tset D U n nc (np \<and> fa) n" by (simp add: tset_def)
  from run obtain m' w4 w7 where
    A: "sviDown f n k v isD nc (sviStore n k d isD m' w) = Some (Inr w4)"
    and B: "sviUp f n isD np fa (fireListeners n k False w4) = Some (Inr w7)"
    and C: "sviValidate f n val w7 = Some (Inr w')"
    unfolding setValueInternal_steps thenDo_eq_Inr by (auto simp: lift_def)
  have 1: "proj (sviStore n k d isD m' w) = proj w" by (rule sviStore_keeps[OF vi Tn])
  have 2: "proj w4 = proj w"
    using sviDown_keeps[OF IH1 W _ _ vi A] ok sc 1 ok_cong[OF W 1] scope_cong[OF W 1] by simp
  have 3: "proj (fireListeners n k False w4) = proj w" using valInert_fire[OF vi Tn] 2 by simp
  have 4: "proj w7 = proj w"
    using sviUp_keeps[OF IH2 W _ _ vi B] ok sc 3 ok_cong[OF W 3] scope_cong[OF W 3] by simp
  have ok7: "ok proj D U w7" using ok ok_cong[OF W 4] by simp
  show "proj w' = proj w"
    using sviValidate_keeps[OF ok7 C] 4 by simp
qed

lemma keptByUPV_Suc:
  assumes IH: "keptBySVI proj D U f" and W: "keepsWiring proj"
  shows "keptByUPV proj D U (Suc f)"
  unfolding keptByUPV_def
proof (intro allI impI, elim conjE)
  fix n isD w w'
  assume ok: "ok proj D U w" and sc: "scope D U n False True w" and vi: "valInert proj U"
    and run: "updateParentValues (Suc f) n isD w = Some (Inr w')"
  show "proj w' = proj w"
  proof (cases "parent (nodes w n)")
    case None
    then show ?thesis using run by (simp add: updateParentValues_Suc updateParentValuesBody_def)
  next
    case (Some pk)
    obtain p name where pk: "pk = (p, name)" by (cases pk)
    from run Some pk obtain c w1 where
      cp: "copyIn (target isD (nodes w n)) w = Some (Inr (c, w1))"
      and r: "setValueInternal f p name c (Some (dirty (nodes w1 n))) True isD False True True w1
              = Some (Inr w')"
      by (auto simp: updateParentValues_Suc updateParentValuesBody_def thenDo_eq_Inr)
    have 1: "proj w1 = proj w"
      using cp by (auto simp: copyIn_def valInert_nextRef[OF vi] split: sum.splits)
    have Up: "U p" using sc Some pk by (auto simp: scope_def)
    have "scope D U p False True w" using ok Up by (auto simp: scope_def ok_def closed_def)
    then have sc1: "scope D U p False (True \<and> True) w1" using scope_cong[OF W 1] by simp
    have vi1: "valInert proj (tset D U p False (True \<and> True))"
      by (rule valInert_mono[OF vi]) (use Up in \<open>auto simp: tset_def\<close>)
    have ok1: "ok proj D U w1" using ok ok_cong[OF W 1] by simp
    have "proj w' = proj w1" using IH ok1 sc1 vi1 r unfolding keptBySVI_def by blast
    then show ?thesis using 1 by simp
  qed
qed

lemma keptBySetValue_Suc:
  assumes IH: "keptBySVI proj D U f"
  shows "keptBySetValue proj D U (Suc f)"
  unfolding keptBySetValue_def
proof (intro allI impI, elim conjE)
  fix n k v val isD nc np fa w w' b
  assume ok: "ok proj D U w" and sc: "scope D U n nc (np \<and> fa) w"
    and vi: "valInert proj (tset D U n nc (np \<and> fa))"
    and run: "setValue (Suc f) n k v val isD nc np fa w = Some (Inr (w', b))"
  from run have "w' = w \<or> (\<exists>d. setValueInternal f n k v d val isD nc np fa w = Some (Inr w'))"
    by (auto simp: setValue_Suc setValueBody_def thenDo_eq_Inr split: if_splits)
  then show "proj w' = proj w"
    using IH ok sc vi unfolding keptBySVI_def by blast
qed

lemma keptBySetValues_Suc:
  assumes IH1: "keptBySetValue proj D U f" and IH2: "keptByUPV proj D U f" and W: "keepsWiring proj"
  shows "keptBySetValues proj D U (Suc f)"
  unfolding keptBySetValues_def
proof (intro allI impI, elim conjE)
  fix n vs isD nc np w w'
  assume ok: "ok proj D U w" and sc: "scope D U n nc np w"
    and vi: "valInert proj (tset D U n nc np)"
    and run: "setValues (Suc f) n vs isD nc np w = Some (Inr w')"
  have Tn: "tset D U n nc np n" by (simp add: tset_def)
  define w0 where "w0 = emit [Called n ''setValues''] w"
  have 0: "proj w0 = proj w"
    unfolding w0_def using Tn by (simp add: valInert_emit[OF vi] valEvent_def)
  from run obtain ks w1 w2 where
    L: "forEach ks (\<lambda>w k. thenDo (lift (getProp vs k)) (\<lambda>v.
          thenDo (setValue f n k v False isD nc np False w) (\<lambda>(w', b). ret w'))) w0 = Some (Inr w1)"
    and P: "(if np then updateParentValues f n isD w1 else ret w1) = Some (Inr w2)"
    and V: "(if validator (nodes (fireAnyListeners n True w2) n) \<noteq> None
             then validate f n (fireAnyListeners n True w2) else ret (fireAnyListeners n True w2))
            = Some (Inr w')"
    unfolding setValues_Suc setValuesBody_def Let_def thenDo_eq_Inr w0_def by auto
  have vi0: "valInert proj (tset D U n nc (np \<and> False))"
    by (rule valInert_mono[OF vi]) (auto simp: tset_def)
  have step: "proj y = proj w"
    if "proj x = proj w"
      and "thenDo (lift (getProp vs k)) (\<lambda>v.
             thenDo (setValue f n k v False isD nc np False x) (\<lambda>(w', b). ret w')) = Some (Inr y)"
    for x k y
  proof -
    from that(2) obtain v b where r: "setValue f n k v False isD nc np False x = Some (Inr (y, b))"
      by (auto simp: thenDo_eq_Inr)
    have okx: "ok proj D U x" using ok ok_cong[OF W that(1)] by simp
    have scx: "scope D U n nc (np \<and> False) x"
      using scope_weaken[OF sc, of nc False] scope_cong[OF W that(1)] by simp
    have "proj y = proj x" using IH1 okx scx vi0 r unfolding keptBySetValue_def by blast
    then show ?thesis using that(1) by simp
  qed
  have 1: "proj w1 = proj w"
    by (rule forEach_keeps_inv[where proj = proj and a = "proj w", OF _ 0 L]) (rule step)
  have 2: "proj w2 = proj w"
  proof (cases np)
    case False
    then show ?thesis using P 1 by simp
  next
    case True
    have ok1: "ok proj D U w1" using ok ok_cong[OF W 1] by simp
    have sc1: "scope D U n False True w1"
      using scope_weaken[OF sc, of False True] True scope_cong[OF W 1] by simp
    have vi1: "valInert proj U" by (rule valInert_mono[OF vi]) (use True in \<open>auto simp: tset_def\<close>)
    have "proj w2 = proj w1" using IH2 ok1 sc1 vi1 P True unfolding keptByUPV_def by auto
    then show ?thesis using 1 by simp
  qed
  have 3: "proj (fireAnyListeners n True w2) = proj w" using valInert_fireAny[OF vi Tn] 2 by simp
  have ok3: "ok proj D U (fireAnyListeners n True w2)" using ok ok_cong[OF W 3] by simp
  have "sviValidate f n True (fireAnyListeners n True w2) = Some (Inr w')"
    using V by (simp add: sviValidate_def)
  from sviValidate_keeps[OF ok3 this] 3 show "proj w' = proj w" by simp
qed

lemma valueEngine_keeps:
  assumes W: "keepsWiring proj"
  shows "keptBySVI proj D U f \<and> keptByUPV proj D U f \<and> keptBySetValue proj D U f
         \<and> keptBySetValues proj D U f"
proof (induction f)
  case 0
  show ?case by (simp add: keptBySVI_def keptByUPV_def keptBySetValue_def keptBySetValues_def)
next
  case (Suc f)
  then show ?case
    using keptBySVI_Suc[OF _ _ W] keptByUPV_Suc[OF _ W] keptBySetValue_Suc keptBySetValues_Suc[OF _ _ W]
    by blast
qed

section \<open>Observations of nodes and of the trace\<close>

lemma seen_fields:
  assumes "seen S w' = seen S w" and "S m"
  shows "vals (nodes w' m) = vals (nodes w m)" "defaultValues (nodes w' m) = defaultValues (nodes w m)"
    "dirtyMap (nodes w' m) = dirtyMap (nodes w m)"
  using fun_cong[OF assms(1), of m] assms(2) by (simp_all add: seen_def)

lemma wiring_upd_data: "dataUpd g \<Longrightarrow> wiring (upd x g w) = wiring w"
  by (rule ext) (simp add: wiring_def upd_def dataUpd_def)

lemma valInert_wiring: "valInert wiring T"
  unfolding valInert_def
  by (auto simp: wiring_upd_data) (auto simp: wiring_def emit_def fun_eq_iff)

lemma errInert_wiring: "errInert wiring"
  unfolding errInert_def by (auto simp: wiring_def emit_def upd_def fun_eq_iff)

lemma valInert_seen: "(\<And>x. T x \<Longrightarrow> \<not> S x) \<Longrightarrow> valInert (seen S) T"
  unfolding valInert_def by (auto simp: seen_def emit_def upd_def fun_eq_iff)

lemma errInert_seen: "errInert (seen S)"
  unfolding errInert_def by (auto simp: seen_def emit_def upd_def fun_eq_iff)

lemma valInert_heard: "(\<And>e. valEvent T e \<Longrightarrow> \<not> P e) \<Longrightarrow> valInert (heard P) T"
  unfolding valInert_def
  by (auto simp: heard_def upd_def emit_def)


lemma valInert_both: "valInert p T \<Longrightarrow> valInert q T \<Longrightarrow> valInert (both p q) T"
  by (simp add: valInert_def both_def)

lemma errInert_both: "errInert p \<Longrightarrow> errInert q \<Longrightarrow> errInert (both p q)"
  by (simp add: errInert_def both_def)

lemma keepsWiring_both: "keepsWiring q \<Longrightarrow> keepsWiring (both p q)"
  unfolding keepsWiring_def both_def prod.inject by blast

lemma setValues_frame:
  "keepsWiring proj \<Longrightarrow> ok proj D U w \<Longrightarrow> scope D U n nc np w \<Longrightarrow> valInert proj (tset D U n nc np)
   \<Longrightarrow> setValues f n vs isD nc np w = Some (Inr w') \<Longrightarrow> proj w' = proj w"
  using valueEngine_keeps[of proj D U f] unfolding keptBySetValues_def by blast

lemma updateParentValues_frame:
  "keepsWiring proj \<Longrightarrow> ok proj D U w \<Longrightarrow> scope D U n False True w \<Longrightarrow> valInert proj U
   \<Longrightarrow> updateParentValues f n isD w = Some (Inr w') \<Longrightarrow> proj w' = proj w"
  using valueEngine_keeps[of proj D U f] unfolding keptByUPV_def by blast

lemma setValueInternal_frame:
  "keepsWiring proj \<Longrightarrow> ok proj D U w \<Longrightarrow> scope D U n nc (np \<and> fa) w
   \<Longrightarrow> valInert proj (tset D U n nc (np \<and> fa))
   \<Longrightarrow> setValueInternal f n k v d val isD nc np fa w = Some (Inr w') \<Longrightarrow> proj w' = proj w"
  using valueEngine_keeps[of proj D U f] unfolding keptBySVI_def by blast


lemma keepsWiring_wiring: "keepsWiring wiring"
  unfolding keepsWiring_def by blast

lemma seenWired_props:
  "keepsWiring (seenWired S)" "errInert (seenWired S)"
  "(\<And>x. T x \<Longrightarrow> \<not> S x) \<Longrightarrow> valInert (seenWired S) T"
  unfolding seenWired_def
  by (simp_all add: keepsWiring_both keepsWiring_wiring errInert_both errInert_seen errInert_wiring
      valInert_both valInert_seen valInert_wiring)

lemma seenWired_fields:
  assumes "seenWired S w' = seenWired S w" and "S m"
  shows "vals (nodes w' m) = vals (nodes w m)" "defaultValues (nodes w' m) = defaultValues (nodes w m)"
    "dirtyMap (nodes w' m) = dirtyMap (nodes w m)"
  using assms seen_fields[of S w' w m] by (simp_all add: seenWired_def both_def)

lemma seenWired_wiring: "seenWired S w' = seenWired S w \<Longrightarrow> wiring w' = wiring w"
  by (simp add: seenWired_def both_def)

section \<open>What \<open>setValueInternal\<close> does to its own node\<close>

lemma nodes_emit [simp]: "nodes (emit es w) = nodes w"
  by (simp add: emit_def)

lemma nodes_fireListeners [simp]: "nodes (fireListeners n k b w) = nodes w"
  by (simp add: fireListeners_def)

lemma nodes_fireAnyListeners [simp]: "nodes (fireAnyListeners n b w) = nodes w"
  by (simp add: fireAnyListeners_def)

lemma seenWired_nodes: "nodes w' = nodes w \<Longrightarrow> seenWired S w' = seenWired S w"
  by (simp add: seenWired_def both_def seen_def wiring_def fun_eq_iff)

lemma seenWired_emit [simp]: "seenWired S (emit es w) = seenWired S w"
  by (rule seenWired_nodes) simp

lemma seenWired_fireListeners [simp]: "seenWired S (fireListeners n k b w) = seenWired S w"
  by (rule seenWired_nodes) simp

lemma seenWired_fireAnyListeners [simp]: "seenWired S (fireAnyListeners n b w) = seenWired S w"
  by (rule seenWired_nodes) simp

lemma wiring_nodes: "nodes w' = nodes w \<Longrightarrow> wiring w' = wiring w"
  by (rule ext) (simp add: wiring_def)

lemma wiring_fireListeners [simp]: "wiring (fireListeners n k b w) = wiring w"
  by (rule wiring_nodes) simp

lemma wiring_fireAnyListeners [simp]: "wiring (fireAnyListeners n b w) = wiring w"
  by (rule wiring_nodes) simp

lemma wiring_emit [simp]: "wiring (emit es w) = wiring w"
  by (rule wiring_nodes) simp

lemma ok_seenWired: "ok (seenWired S) D U w = closed D U w"
  by (simp add: ok_def seenWired_props)

lemma closed_nodes: "nodes w' = nodes w \<Longrightarrow> closed D U w' = closed D U w"
  by (simp add: closed_def)

lemma sviStore_nodes:
  "nodes (sviStore n k d isDefault m' w) =
     (nodes w)(n := (setTarget isDefault m' (nodes w n))
        \<lparr>dirtyMap := (case d of None \<Rightarrow> dirtyMap (nodes w n)
                       | Some b \<Rightarrow> assign (dirtyMap (nodes w n)) k b)\<rparr>)"
  by (cases d) (simp_all add: sviStore_def Let_def upd_def setTarget_def fun_eq_iff)

lemma sviStore_wiring: "wiring (sviStore n k d isDefault m' w) = wiring w"
  by (rule ext) (simp add: wiring_def sviStore_nodes setTarget_def)

lemma target_setTarget [simp]:
  "target isDefault (setTarget isDefault m nd) = m"
  "target (\<not> isDefault) (setTarget isDefault m nd) = target (\<not> isDefault) nd"
  by (simp_all add: target_def setTarget_def)

lemma target_dirtyMap [simp]: "target b (nd\<lparr>dirtyMap := x\<rparr>) = target b nd"
  by (simp add: target_def)

lemma dirtyMap_setTarget [simp]: "dirtyMap (setTarget isDefault m nd) = dirtyMap nd"
  by (simp add: setTarget_def)

lemma validate_data:
  assumes "validate f n w = Some (Inr w')"
  shows "seenWired S w' = seenWired S w"
  using validate_keeps[OF seenWired_props(2) assms] .

lemma sviValidate_data:
  assumes "sviValidate f n val w = Some (Inr w')"
  shows "seenWired S w' = seenWired S w"
  using assms validate_data by (auto simp: sviValidate_def split: if_splits)

lemma sviUp_data:
  assumes cl: "closed D U w" and sc: "scope D U n False True w"
    and run: "sviUp f n isDefault np fa w = Some (Inr w')"
  shows "seenWired (\<lambda>x. \<not> U x) w' = seenWired (\<lambda>x. \<not> U x) w"
proof (cases "fa \<and> np")
  case False
  then show ?thesis
    using run
    by (auto simp: sviUp_def updateParentValues_Suc thenDo_eq_Inr split: if_splits)
next
  case True
  then obtain w6 where r: "updateParentValues f n isDefault w = Some (Inr w6)"
    and e: "w' = fireAnyListeners n False w6"
    using run by (auto simp: sviUp_def thenDo_eq_Inr)
  have "seenWired (\<lambda>x. \<not> U x) w6 = seenWired (\<lambda>x. \<not> U x) w"
    by (rule updateParentValues_frame[OF seenWired_props(1) _ sc _ r])
       (simp_all add: ok_seenWired cl seenWired_props(3))
  then show ?thesis using e by simp
qed

lemma sviDown_data:
  assumes cl: "closed D U w" and sc: "scope D U n True False w" and nD: "\<not> D n"
    and run: "sviDown f n k v isDefault nc w = Some (Inr w')"
  shows "wiring w' = wiring w"
    and "target isDefault (nodes w' n) = target isDefault (nodes w n)"
    and "target (\<not> isDefault) (nodes w' n) = target (\<not> isDefault) (nodes w n)"
    and "dirtyMap (nodes w' n) =
           (if nc \<and> v \<noteq> Undefined then
              (case childMap (nodes w n) k of
                 None \<Rightarrow> dirtyMap (nodes w n)
               | Some c \<Rightarrow> assign (dirtyMap (nodes w n)) k (dirty (nodes w' c)))
            else dirtyMap (nodes w n))"
    and "\<And>m. m \<noteq> n \<Longrightarrow> \<not> D m \<Longrightarrow> nodes w' m = nodes w m \<or>
           (vals (nodes w' m) = vals (nodes w m) \<and> defaultValues (nodes w' m) = defaultValues (nodes w m)
            \<and> dirtyMap (nodes w' m) = dirtyMap (nodes w m))"
proof -
  let ?S = "\<lambda>x. \<not> D x"
  have main: "wiring w' = wiring w \<and> target isDefault (nodes w' n) = target isDefault (nodes w n)
    \<and> target (\<not> isDefault) (nodes w' n) = target (\<not> isDefault) (nodes w n)
    \<and> dirtyMap (nodes w' n) =
           (if nc \<and> v \<noteq> Undefined then
              (case childMap (nodes w n) k of
                 None \<Rightarrow> dirtyMap (nodes w n)
               | Some c \<Rightarrow> assign (dirtyMap (nodes w n)) k (dirty (nodes w' c)))
            else dirtyMap (nodes w n))
    \<and> (\<forall>m. m \<noteq> n \<longrightarrow> \<not> D m \<longrightarrow>
           (vals (nodes w' m) = vals (nodes w m) \<and> defaultValues (nodes w' m) = defaultValues (nodes w m)
            \<and> dirtyMap (nodes w' m) = dirtyMap (nodes w m)))"
  proof (cases "nc \<and> v \<noteq> Undefined")
    case False
    then show ?thesis using run by (auto simp: sviDown_def)
  next
    case True
    show ?thesis
    proof (cases "childMap (nodes w n) k")
      case None
      then show ?thesis using run True by (auto simp: sviDown_def split: if_splits)
    next
      case (Some c)
      from run True Some obtain w3 where
        r: "setValues f c v isDefault True False w = Some (Inr w3)"
        and e: "w' = upd n (\<lambda>nd. nd\<lparr>dirtyMap := assign (dirtyMap nd) k (dirty (nodes w3 c))\<rparr>) w3"
        by (auto simp: sviDown_def thenDo_eq_Inr)
      have Dc: "D c" using sc Some by (auto simp: scope_def)
      then have cn: "c \<noteq> n" using nD by auto
      have sc': "scope D U c True False w" using cl Dc by (auto simp: scope_def closed_def)
      have fr: "seenWired ?S w3 = seenWired ?S w"
        by (rule setValues_frame[OF seenWired_props(1) _ sc' _ r])
           (use Dc in \<open>auto simp: ok_seenWired cl tset_def intro!: seenWired_props(3)\<close>)
      have w3: "wiring w3 = wiring w" using seenWired_wiring[OF fr] .
      have dn: "vals (nodes w3 m) = vals (nodes w m) \<and> defaultValues (nodes w3 m) = defaultValues (nodes w m)
            \<and> dirtyMap (nodes w3 m) = dirtyMap (nodes w m)" if "\<not> D m" for m
        using seenWired_fields[OF fr, of m] that by simp
      have wr: "wiring w' = wiring w3" unfolding e by (rule wiring_upd_data) simp
      have "dirty (nodes w' c) = dirty (nodes w3 c)" using cn by (simp add: e upd_def)
      then show ?thesis
        using True Some dn[OF nD] dn wr w3 by (auto simp: e upd_def target_def)
    qed
  qed
  show "wiring w' = wiring w" using main by blast
  show "target isDefault (nodes w' n) = target isDefault (nodes w n)" using main by blast
  show "target (\<not> isDefault) (nodes w' n) = target (\<not> isDefault) (nodes w n)" using main by blast
  show "dirtyMap (nodes w' n) =
           (if nc \<and> v \<noteq> Undefined then
              (case childMap (nodes w n) k of
                 None \<Rightarrow> dirtyMap (nodes w n)
               | Some c \<Rightarrow> assign (dirtyMap (nodes w n)) k (dirty (nodes w' c)))
            else dirtyMap (nodes w n))" using main by blast
  show "\<And>m. m \<noteq> n \<Longrightarrow> \<not> D m \<Longrightarrow> nodes w' m = nodes w m \<or>
           (vals (nodes w' m) = vals (nodes w m) \<and> defaultValues (nodes w' m) = defaultValues (nodes w m)
            \<and> dirtyMap (nodes w' m) = dirtyMap (nodes w m))" using main by blast
qed
lemma setValueInternal_own:
  assumes cl: "closed D U w" and sc: "scope D U n True True w" and nD: "\<not> D n" and nU: "\<not> U n"
    and dj: "\<And>x. D x \<Longrightarrow> \<not> U x"
    and run: "setValueInternal (Suc f) n k v d val isDefault nc np fa w = Some (Inr w')"
  shows "\<exists>m'. (if v = Undefined then delProp (target isDefault (nodes w n)) k
               else setProp (target isDefault (nodes w n)) k v) = Inr m'
          \<and> target isDefault (nodes w' n) = m'
          \<and> target (\<not> isDefault) (nodes w' n) = target (\<not> isDefault) (nodes w n)
          \<and> dirtyMap (nodes w' n) =
              (let dm = (case d of None \<Rightarrow> dirtyMap (nodes w n)
                         | Some b \<Rightarrow> assign (dirtyMap (nodes w n)) k b)
               in if nc \<and> v \<noteq> Undefined then
                    (case childMap (nodes w n) k of
                       None \<Rightarrow> dm
                     | Some c \<Rightarrow> assign dm k (dirty (nodes w' c)))
                  else dm)
          \<and> wiring w' = wiring w"
proof -
  from run obtain m' w4 w7 where
    M: "(if v = Undefined then delProp (target isDefault (nodes w n)) k
         else setProp (target isDefault (nodes w n)) k v) = Inr m'"
    and A: "sviDown f n k v isDefault nc (sviStore n k d isDefault m' w) = Some (Inr w4)"
    and B: "sviUp f n isDefault np fa (fireListeners n k False w4) = Some (Inr w7)"
    and C: "sviValidate f n val w7 = Some (Inr w')"
    unfolding setValueInternal_steps thenDo_eq_Inr by (auto simp: lift_def)
  define w2 where "w2 = sviStore n k d isDefault m' w"
  define dm where "dm = (case d of None \<Rightarrow> dirtyMap (nodes w n)
                         | Some b \<Rightarrow> assign (dirtyMap (nodes w n)) k b)"
  have W2: "wiring w2 = wiring w" unfolding w2_def by (rule sviStore_wiring)
  have n2: "target isDefault (nodes w2 n) = m'"
    "target (\<not> isDefault) (nodes w2 n) = target (\<not> isDefault) (nodes w n)"
    "dirtyMap (nodes w2 n) = dm"
    unfolding w2_def dm_def by (simp_all add: sviStore_nodes)
  have cl2: "closed D U w2" using cl wiring_closed[OF W2] by simp
  have sc2: "scope D U n True True w2" using sc wiring_scope[OF W2] by simp
  have sc2d: "scope D U n True False w2" by (rule scope_weaken[OF sc2]) simp_all
  note dn = sviDown_data[OF cl2 sc2d nD A[folded w2_def]]
  have W4: "wiring w4 = wiring w" using dn(1) W2 by simp
  define w5 where "w5 = fireListeners n k False w4"
  have W5: "wiring w5 = wiring w" using W4 by (simp add: w5_def)
  have cl5: "closed D U w5" using cl wiring_closed[OF W5] by simp
  have sc5: "scope D U n False True w5"
    using scope_weaken[OF sc, of False True] wiring_scope[OF W5] by simp
  note up = sviUp_data[OF cl5 sc5 B[folded w5_def]]
  note va = sviValidate_data[OF C, of "\<lambda>x. \<not> U x"]
  have fin: "seenWired (\<lambda>x. \<not> U x) w' = seenWired (\<lambda>x. \<not> U x) w4"
    using up va by (simp add: w5_def)
  have keep: "vals (nodes w' m) = vals (nodes w4 m) \<and> defaultValues (nodes w' m) = defaultValues (nodes w4 m)
      \<and> dirtyMap (nodes w' m) = dirtyMap (nodes w4 m)" if "\<not> U m" for m
    using seenWired_fields[OF fin, of m] that by simp
  have tk: "target b (nodes w' m) = target b (nodes w4 m)" if "\<not> U m" for m b
    using keep[OF that] by (simp add: target_def)
  have Wf: "wiring w' = wiring w" using seenWired_wiring[OF fin] W4 by simp
  have chm: "childMap (nodes w2 n) = childMap (nodes w n)" using wiring_fields(1)[OF W2] .
  have dirty_c: "dirty (nodes w' c) = dirty (nodes w4 c)" if "childMap (nodes w n) k = Some c" for c
  proof -
    have "D c" using sc that by (auto simp: scope_def)
    then have "\<not> U c" using dj by blast
    then show ?thesis using keep[of c] by (simp add: dirty_def)
  qed
  have "dirtyMap (nodes w' n) =
          (if nc \<and> v \<noteq> Undefined then
             (case childMap (nodes w n) k of None \<Rightarrow> dm | Some c \<Rightarrow> assign dm k (dirty (nodes w' c)))
           else dm)"
    using keep[OF nU] dn(4) n2(3) chm dirty_c by (auto split: option.splits)
  then show ?thesis
    using M tk[OF nU] dn(2,3) n2(1,2) Wf unfolding dm_def Let_def by auto
qed

section \<open>Properties of containers\<close>

lemma strictEq_scalar: "typeof v \<noteq> ''object'' \<Longrightarrow> strictEq cur v = (cur = v \<and> v \<noteq> NaN)"
  by (cases cur; cases v) simp_all

lemma inherited_proto [simp]: "inherited (Name ''__proto__'')"
  by (simp add: inherited_def objectProto_def)

lemma not_inherited_proto: "\<not> inherited k \<Longrightarrow> k \<noteq> Name ''__proto__''"
  by auto

lemma map_of_assign: "map_of (assign kvs k v) k = Some v"
  by (induction kvs) auto

lemma map_of_assign_other: "k' \<noteq> k \<Longrightarrow> map_of (assign kvs k v) k' = map_of kvs k'"
  by (induction kvs) auto

lemma map_of_remove: "map_of (remove kvs k) k = None"
  by (induction kvs) (auto simp: remove_def)

lemma getProp_setProp: "setProp m k v = Inr m' \<Longrightarrow> getProp m' k = Inr v"
  by (cases m; cases k) (auto simp: map_of_assign nth_append split: if_splits)

lemma getProp_delProp: "delProp m k = Inr m' \<Longrightarrow> \<not> isArray m \<Longrightarrow> getProp m' k = Inr Undefined"
  by (cases m) (auto simp: map_of_remove split: if_splits)

lemma setTarget_rest [simp]:
  "childMap (setTarget b m nd) = childMap nd" "parent (setTarget b m nd) = parent nd"
  "validator (setTarget b m nd) = validator nd" "listeners (setTarget b m nd) = listeners nd"
  "anyListeners (setTarget b m nd) = anyListeners nd" "errorMap (setTarget b m nd) = errorMap nd"
  "state (setTarget b m nd) = state nd"
  by (simp_all add: setTarget_def)

lemma treeAtD:
  assumes "treeAt D U n w"
  shows "closed D U w" "scope D U n True True w" "\<not> D n" "\<not> U n" "\<And>x. D x \<Longrightarrow> \<not> U x"
  using assms by (auto simp: treeAt_def)

lemma setValueInternal_stores:
  assumes t: "treeAt D U n w"
    and run: "setValueInternal f n k v d val isDefault nc np fa w = Some (Inr w')"
    and na: "\<not> (isArray (target isDefault (nodes w n)) \<and> v = Undefined)"
  shows "getProp (target isDefault (nodes w' n)) k = Inr v"
proof -
  obtain f' where f: "f = Suc f'" using run by (cases f) auto
  from setValueInternal_own[OF treeAtD[OF t] run[unfolded f]]
  obtain m' where M: "(if v = Undefined then delProp (target isDefault (nodes w n)) k
               else setProp (target isDefault (nodes w n)) k v) = Inr m'"
    and T: "target isDefault (nodes w' n) = m'" by blast
  show ?thesis
  proof (cases "v = Undefined")
    case True
    then show ?thesis using M T na getProp_delProp by auto
  next
    case False
    then show ?thesis using M T getProp_setProp by auto
  qed
qed

section \<open>The dirty flag\<close>

text \<open>
  C4, as the code has it. On a node of a tree, for a call of \<open>setValue\<close> that returns
  \<open>true\<close> (it is not the short-circuited no-op): if \<open>v\<close> is a scalar, \<open>dirtyMap[key]\<close> is
  set to "\<open>v\<close> differs from the value of the other side under \<open>key\<close>" (the other side is
  not changed by the call), unless a child node is registered under \<open>key\<close>, \<open>notifyChild\<close>
  is set and \<open>v\<close> is not \<open>undefined\<close>: then it is the aggregated \<open>dirty\<close> of that child.
  If \<open>v\<close> is composite (\<open>typeof v\<close> is \<open>"object"\<close>) no flag is computed: \<open>dirtyMap\<close> is
  left as it was, but for the same overwrite by a child.
\<close>

theorem setValue_dirty:
  assumes t: "treeAt D U n w"
    and run: "setValue f n k v val isDefault nc np fa w = Some (Inr (w', True))"
  shows "(typeof v \<noteq> ''object'' \<longrightarrow>
           (\<exists>other. getProp (target (\<not> isDefault) (nodes w n)) k = Inr other
              \<and> target (\<not> isDefault) (nodes w' n) = target (\<not> isDefault) (nodes w n)
              \<and> map_of (dirtyMap (nodes w' n)) k =
                  Some (if nc \<and> v \<noteq> Undefined then
                          (case childMap (nodes w n) k of
                             None \<Rightarrow> \<not> strictEq v other
                           | Some c \<Rightarrow> dirty (nodes w' c))
                        else \<not> strictEq v other)))
       \<and> (typeof v = ''object'' \<longrightarrow>
           dirtyMap (nodes w' n) =
             (if nc then
                (case childMap (nodes w n) k of
                   None \<Rightarrow> dirtyMap (nodes w n)
                 | Some c \<Rightarrow> assign (dirtyMap (nodes w n)) k (dirty (nodes w' c)))
              else dirtyMap (nodes w n)))"
proof (intro conjI impI)
  obtain f' where f: "f = Suc f'" using run by (cases f) auto
  {
    assume sv: "typeof v \<noteq> ''object''"
    from run sv obtain cur other f'' where
      o: "getProp (target (\<not> isDefault) (nodes w n)) k = Inr other"
      and r: "setValueInternal (Suc f'') n k v (Some (\<not> strictEq v other)) val isDefault nc np fa w
              = Some (Inr w')"
      by (cases f') (auto simp: f setValue_Suc setValueBody_def thenDo_eq_Inr lift_def split: if_splits)
    from setValueInternal_own[OF treeAtD[OF t] r]
    have "target (\<not> isDefault) (nodes w' n) = target (\<not> isDefault) (nodes w n)"
      and "dirtyMap (nodes w' n) =
              (let dm = assign (dirtyMap (nodes w n)) k (\<not> strictEq v other)
               in if nc \<and> v \<noteq> Undefined then
                    (case childMap (nodes w n) k of
                       None \<Rightarrow> dm
                     | Some c \<Rightarrow> assign dm k (dirty (nodes w' c)))
                  else dm)"
      by auto
    then show "\<exists>other. getProp (target (\<not> isDefault) (nodes w n)) k = Inr other
              \<and> target (\<not> isDefault) (nodes w' n) = target (\<not> isDefault) (nodes w n)
              \<and> map_of (dirtyMap (nodes w' n)) k =
                  Some (if nc \<and> v \<noteq> Undefined then
                          (case childMap (nodes w n) k of
                             None \<Rightarrow> \<not> strictEq v other
                           | Some c \<Rightarrow> dirty (nodes w' c))
                        else \<not> strictEq v other)"
      using o by (auto simp: Let_def map_of_assign split: option.splits)
  }
  {
    assume cv: "typeof v = ''object''"
    then have vu: "v \<noteq> Undefined" by auto
    from run cv obtain f'' where
      r: "setValueInternal (Suc f'') n k v None val isDefault nc np fa w = Some (Inr w')"
      by (cases f') (auto simp: f setValue_Suc setValueBody_def thenDo_eq_Inr)
    from setValueInternal_own[OF treeAtD[OF t] r] vu
    show "dirtyMap (nodes w' n) =
             (if nc then
                (case childMap (nodes w n) k of
                   None \<Rightarrow> dirtyMap (nodes w n)
                 | Some c \<Rightarrow> assign (dirtyMap (nodes w n)) k (dirty (nodes w' c)))
              else dirtyMap (nodes w n))"
      by (auto simp: Let_def)
  }
qed

section \<open>Evaluating the examples\<close>

lemma setValueInternal_numeral:
  "setValueInternal (numeral i) =
     setValueInternalBody (validate (pred_numeral i)) (setValues (pred_numeral i))
       (updateParentValues (pred_numeral i))"
  by (simp add: numeral_eq_Suc setValueInternal_Suc)

lemma updateParentValues_numeral:
  "updateParentValues (numeral i) = updateParentValuesBody (setValueInternal (pred_numeral i))"
  by (simp add: numeral_eq_Suc updateParentValues_Suc)

lemma setValue_numeral: "setValue (numeral i) = setValueBody (setValueInternal (pred_numeral i))"
  by (simp add: numeral_eq_Suc setValue_Suc)

lemma setValues_numeral:
  "setValues (numeral i) =
     setValuesBody (validate (pred_numeral i)) (setValue (pred_numeral i))
       (updateParentValues (pred_numeral i))"
  by (simp add: numeral_eq_Suc setValues_Suc)

lemmas setError_numeral = setError.simps(2)[of "pred_numeral i", folded numeral_eq_Suc] for i
lemmas setErrors_numeral = setErrors.simps(2)[of "pred_numeral i", folded numeral_eq_Suc] for i
lemmas updateParentErrors_numeral =
  updateParentErrors.simps(2)[of "pred_numeral i", folded numeral_eq_Suc] for i
lemmas setState_numeral = setState.simps(2)[of "pred_numeral i", folded numeral_eq_Suc] for i
lemmas updateParentState_numeral =
  updateParentState.simps(2)[of "pred_numeral i", folded numeral_eq_Suc] for i

lemmas evalDefs =
  family_def worldOf_def familyWorld_def newFormState_def construct_def copyIn_def
  newChildFormState_def orEmpty_def listen_def listenAny_def upd_def emptyWorld_def emptyNode_def
  Let_def emit_def fireListeners_def fireAnyListeners_def target_def setTarget_def mostKeysOf_def
  setValue_Suc setValueBody_def setValueInternal_Suc setValueInternalBody_def
  updateParentValues_Suc updateParentValuesBody_def setValues_Suc setValuesBody_def
  setValue_numeral setValueInternal_numeral updateParentValues_numeral setValues_numeral
  setError_numeral setErrors_numeral updateParentErrors_numeral setState_numeral
  updateParentState_numeral
  validate_def dirty_def error_def remove_def observe_def ret_def lift_def
  inherited_def builtin_def objectProto_def otherProto_def keyOrder_def
  numeral_2_eq_2[symmetric]

lemma familyWorld_nodes:
  "nodes familyWorld (Suc 0) =
     \<lparr>vals = Obj 0 [(Name ''address'', Obj 1001 [(Name ''city'', Str ''Paris'')])],
      defaultValues = Obj 1 [(Name ''address'', Obj 1001 [(Name ''city'', Str ''Paris'')])],
      childMap = (\<lambda>k. None)(Name ''address'' := Some 2), dirtyMap = [], errorMap = [],
      state = Obj 2 [], listeners = (\<lambda>k. [])(Name ''address'' := [0]), anyListeners = [1],
      counter = 2, validator = None, validateOnChange = True, parent = None\<rparr>"
  "nodes familyWorld 2 =
     \<lparr>vals = Obj 3 [(Name ''city'', Str ''Paris'')],
      defaultValues = Obj 4 [(Name ''city'', Str ''Paris'')],
      childMap = (\<lambda>k. None), dirtyMap = [], errorMap = [],
      state = Obj 5 [], listeners = (\<lambda>k. []), anyListeners = [0],
      counter = 1, validator = None, validateOnChange = True, parent = Some (1, Name ''address'')\<rparr>"
  "trace familyWorld = []" "nextRef familyWorld = 6"
  by (simp_all add: evalDefs)

lemma treeAt_family_child: "treeAt (\<lambda>x. False) (\<lambda>x. x = 1) 2 familyWorld"
  by (simp add: treeAt_def closed_def scope_def familyWorld_nodes)

lemma run_rome:
  "setValue 5 2 (Name ''city'') (Str ''Rome'') True False True True True familyWorld
     = Some (Inr (afterRome, True))"
  by (simp add: afterRome_def evalDefs)

lemma treeAt_family_root: "treeAt (\<lambda>x. x = 2) (\<lambda>x. False) (Suc 0) familyWorld"
  by (simp add: treeAt_def closed_def scope_def familyWorld_nodes)

lemma run_zip:
  "setValue 5 (Suc 0) (Name ''zip'') (Obj 1005 [(Name ''x'', Num 1)]) True False True True True
     familyWorld = Some (Inr (afterZip, True))"
  by (simp add: afterZip_def evalDefs)

lemma run_null:
  "setValue 5 (Suc 0) (Name ''zip'') Null True False True True True familyWorld
     = Some (Inr (afterNull, True))"
  by (simp add: afterNull_def evalDefs)

theorem setValue_dirty_witness:
  "treeAt (\<lambda>x. False) (\<lambda>x. x = 1) 2 familyWorld
   \<and> setValue 5 2 (Name ''city'') (Str ''Rome'') True False True True True familyWorld
       = Some (Inr (afterRome, True))
   \<and> typeof (Str ''Rome'') \<noteq> ''object''
   \<and> map_of (dirtyMap (nodes afterRome 2)) (Name ''city'') = Some True
   \<and> treeAt (\<lambda>x. x = 2) (\<lambda>x. False) 1 familyWorld
   \<and> setValue 5 1 (Name ''zip'') (Obj 1005 [(Name ''x'', Num 1)]) True False True True True
        familyWorld = Some (Inr (afterZip, True))
   \<and> typeof (Obj 1005 [(Name ''x'', Num 1)]) = ''object''
   \<and> dirtyMap (nodes afterZip 1) = dirtyMap (nodes familyWorld 1)"
  using setValue_dirty[OF treeAt_family_child run_rome] setValue_dirty[OF treeAt_family_root run_zip]
    treeAt_family_child treeAt_family_root run_rome run_zip
  by (simp add: familyWorld_nodes target_def)

text \<open>C4 as stated fails for a composite value: after \<open>setValue("zip", {x: 1})\<close> on the root
  the written side holds an object under \<open>zip\<close> and the other side holds nothing, yet
  \<open>dirtyMap\<close> has no entry for \<open>zip\<close>.\<close>

theorem setValue_dirty_counterexample:
  "setValue 5 1 (Name ''zip'') (Obj 1005 [(Name ''x'', Num 1)]) True False True True True familyWorld
     = Some (Inr (afterZip, True))
   \<and> getProp (vals (nodes afterZip 1)) (Name ''zip'') = Inr (Obj 1005 [(Name ''x'', Num 1)])
   \<and> getProp (defaultValues (nodes afterZip 1)) (Name ''zip'') = Inr Undefined
   \<and> map_of (dirtyMap (nodes afterZip 1)) (Name ''zip'') = None"
  using run_zip by (simp add: afterZip_def evalDefs)

section \<open>Upward propagation of values\<close>

lemma ordered_treeAt: "ordered w \<Longrightarrow> treeAt (\<lambda>m. n < m) (\<lambda>m. m < n) n w"
  unfolding ordered_def treeAt_def closed_def scope_def
  by (auto intro: less_trans)

lemma wiring_ordered: "wiring w' = wiring w \<Longrightarrow> ordered w' = ordered w"
  using wiring_fields(1,2)[of w' w] by (simp add: ordered_def)

lemma setProp_container: "setProp m k v = Inr m' \<Longrightarrow> isArray m' \<or> isKeyed m'"
  by (cases m; cases k) (auto simp: isKeyed_def split: if_splits)

lemma delProp_container: "delProp m k = Inr m' \<Longrightarrow> isArray m' \<or> isKeyed m'"
  by (cases m; cases k) (auto simp: isKeyed_def split: if_splits)

lemma copyIn_container:
  assumes "isArray m \<or> isKeyed m"
  shows "\<exists>c. copyIn m w = Some (Inr (c, w\<lparr>nextRef := Suc (nextRef w)\<rparr>)) \<and> sameContent c m
            \<and> c \<noteq> Undefined"
  using assms by (cases m) (auto simp: copyIn_def isKeyed_def ret_def)

lemma getProp_sameContent: "sameContent a b \<Longrightarrow> getProp a k = getProp b k"
  by (cases a; cases b; cases k) auto

lemma nodes_nextRef [simp]: "nodes (w\<lparr>nextRef := r\<rparr>) = nodes w"
  by simp

lemma wiring_nextRef [simp]: "wiring (w\<lparr>nextRef := r\<rparr>) = wiring w"
  by (rule wiring_nodes) simp

lemma child_setValueInternal_sync:
  assumes ord: "ordered w" and par: "parent (nodes w c) = Some (p, name)"
    and run: "setValueInternal f c k v d val isDefault nc True True w = Some (Inr w')"
  shows "\<exists>m' pv.
           (if v = Undefined then delProp (target isDefault (nodes w c)) k
            else setProp (target isDefault (nodes w c)) k v) = Inr m'
         \<and> target isDefault (nodes w' c) = m'
         \<and> getProp (target isDefault (nodes w' p)) name = Inr pv \<and> sameContent pv m'
         \<and> target (\<not> isDefault) (nodes w' c) = target (\<not> isDefault) (nodes w c)
         \<and> target (\<not> isDefault) (nodes w' p) = target (\<not> isDefault) (nodes w p)
         \<and> map_of (dirtyMap (nodes w' p)) name = Some (dirty (nodes w' c))
         \<and> wiring w' = wiring w"
proof -
  have pc: "p < c" using ord par by (auto simp: ordered_def)
  obtain f' where f: "f = Suc f'" using run by (cases f) auto
  from run[unfolded f] obtain m' w4 w7 where
    M: "(if v = Undefined then delProp (target isDefault (nodes w c)) k
         else setProp (target isDefault (nodes w c)) k v) = Inr m'"
    and A: "sviDown f' c k v isDefault nc (sviStore c k d isDefault m' w) = Some (Inr w4)"
    and B: "sviUp f' c isDefault True True (fireListeners c k False w4) = Some (Inr w7)"
    and C: "sviValidate f' c val w7 = Some (Inr w')"
    unfolding setValueInternal_steps thenDo_eq_Inr by (auto simp: lift_def)
  have cont: "isArray m' \<or> isKeyed m'"
    using M setProp_container delProp_container by (auto split: if_splits)
  define w2 where "w2 = sviStore c k d isDefault m' w"
  have W2: "wiring w2 = wiring w" unfolding w2_def by (rule sviStore_wiring)
  have o2: "ordered w2" using ord wiring_ordered[OF W2] by simp
  have c2: "target isDefault (nodes w2 c) = m'"
    "target (\<not> isDefault) (nodes w2 c) = target (\<not> isDefault) (nodes w c)"
    unfolding w2_def by (simp_all add: sviStore_nodes)
  have p2: "nodes w2 p = nodes w p" using pc unfolding w2_def by (simp add: sviStore_nodes)
  note t2 = treeAtD[OF ordered_treeAt[OF o2, of c]]
  note dn = sviDown_data[OF t2(1) scope_weaken[OF t2(2), of True False] t2(3) A[folded w2_def]]
  have W4: "wiring w4 = wiring w" using dn(1) W2 by simp
  have c4: "target isDefault (nodes w4 c) = m'"
    "target (\<not> isDefault) (nodes w4 c) = target (\<not> isDefault) (nodes w c)"
    using dn(2,3) c2 by simp_all
  have p4: "target b (nodes w4 p) = target b (nodes w p)" for b
    using dn(5)[of p] pc p2 by (auto simp: target_def)
  define w5 where "w5 = fireListeners c k False w4"
  have n5: "nodes w5 = nodes w4" by (simp add: w5_def)
  from B[folded w5_def] obtain w6 where
    UP: "updateParentValues f' c isDefault w5 = Some (Inr w6)"
    and w7: "w7 = fireAnyListeners c False w6"
    by (auto simp: sviUp_def thenDo_eq_Inr)
  obtain g where f': "f' = Suc g" using UP by (cases f') auto
  have par5: "parent (nodes w5 c) = Some (p, name)"
    using par wiring_fields(2)[OF W4] n5 by simp
  obtain cp where cp: "copyIn m' w5 = Some (Inr (cp, w5\<lparr>nextRef := Suc (nextRef w5)\<rparr>))"
    and sc: "sameContent cp m'" and cpu: "cp \<noteq> Undefined"
    using copyIn_container[OF cont] by blast
  define w5' where "w5' = w5\<lparr>nextRef := Suc (nextRef w5)\<rparr>"
  have n5': "nodes w5' = nodes w4" by (simp add: w5'_def n5)
  have R: "setValueInternal g p name cp (Some (dirty (nodes w5' c))) True isDefault False True True w5'
           = Some (Inr w6)"
    using UP par5 cp c4(1) n5
    by (simp add: f' updateParentValues_Suc updateParentValuesBody_def w5'_def)
  obtain g' where g: "g = Suc g'" using R by (cases g) auto
  have W5': "wiring w5' = wiring w" using W4 wiring_nodes[OF n5'] by simp
  have o5: "ordered w5'" using ord wiring_ordered[OF W5'] by simp
  note tp = treeAtD[OF ordered_treeAt[OF o5, of p]]
  from setValueInternal_own[OF tp R[unfolded g]] cpu
  obtain mp' where MP: "setProp (target isDefault (nodes w5' p)) name cp = Inr mp'"
    and P6: "target isDefault (nodes w6 p) = mp'"
      "target (\<not> isDefault) (nodes w6 p) = target (\<not> isDefault) (nodes w5' p)"
      "dirtyMap (nodes w6 p) = assign (dirtyMap (nodes w5' p)) name (dirty (nodes w5' c))"
    and W6: "wiring w6 = wiring w5'"
    by (auto simp: Let_def)
  have fr: "seenWired (\<lambda>x. x = c) w6 = seenWired (\<lambda>x. x = c) w5'"
    by (rule setValueInternal_frame[OF seenWired_props(1) _ _ _ R,
          where D = "\<lambda>m. p < m" and U = "\<lambda>m. m < p"])
       (use pc tp in \<open>auto simp: ok_seenWired tset_def intro!: seenWired_props(3) scope_weaken[OF tp(2)]\<close>)
  have va: "seenWired (\<lambda>x. True) w' = seenWired (\<lambda>x. True) w7" by (rule sviValidate_data[OF C])
  have n7: "nodes w7 = nodes w6" by (simp add: w7)
  have fin: "vals (nodes w' m) = vals (nodes w6 m) \<and> defaultValues (nodes w' m) = defaultValues (nodes w6 m)
     \<and> dirtyMap (nodes w' m) = dirtyMap (nodes w6 m)" for m
    using seenWired_fields[OF va, of m] n7 by simp
  have tf: "target b (nodes w' m) = target b (nodes w6 m)" for b m
    using fin[of m] by (simp add: target_def)
  have c6: "vals (nodes w6 c) = vals (nodes w4 c) \<and> defaultValues (nodes w6 c) = defaultValues (nodes w4 c)
     \<and> dirtyMap (nodes w6 c) = dirtyMap (nodes w4 c)"
    using seenWired_fields[OF fr, of c] n5' by simp
  have tc: "target b (nodes w6 c) = target b (nodes w4 c)" for b
    using c6 by (simp add: target_def)
  have dc: "dirty (nodes w' c) = dirty (nodes w5' c)"
    using fin[of c] c6 n5' by (simp add: dirty_def)
  have "getProp (target isDefault (nodes w' p)) name = Inr cp"
    using tf[of isDefault p] P6(1) getProp_setProp[OF MP] by simp
  moreover have "target (\<not> isDefault) (nodes w' p) = target (\<not> isDefault) (nodes w p)"
    using tf[of "\<not> isDefault" p] P6(2) n5' p4 by simp
  moreover have "map_of (dirtyMap (nodes w' p)) name = Some (dirty (nodes w' c))"
    using fin[of p] P6(3) dc by (simp add: map_of_assign)
  moreover have "target isDefault (nodes w' c) = m'"
    "target (\<not> isDefault) (nodes w' c) = target (\<not> isDefault) (nodes w c)"
    using tf[of _ c] tc c4 by simp_all
  moreover have "wiring w' = wiring w"
    using seenWired_wiring[OF va] wiring_nodes[OF n7] W6 W5' by simp
  ultimately show ?thesis using M sc by blast
qed
text \<open>
  C2, as the code has it. For a child node \<open>c\<close> bound to the field \<open>name\<close> of \<open>p\<close>, after a
  call \<open>c.setValue(key, v)\<close> with \<open>notifyParent\<close> and \<open>fireAny\<close> set (as by default) that
  returns \<open>true\<close>, so is not the short-circuited no-op, and is not the removal of an array
  element: \<open>p.values[name]\<close> is a copy of \<open>c.values\<close>, \<open>p.values[name][key]\<close> is \<open>v\<close>, and
  \<open>p.dirtyMap[name]\<close> is \<open>c.dirty\<close>.
\<close>

theorem child_setValue_upward_sync:
  assumes ord: "ordered w" and par: "parent (nodes w c) = Some (p, name)"
    and run: "setValue f c k v val False nc True True w = Some (Inr (w', True))"
    and na: "\<not> (isArray (vals (nodes w c)) \<and> v = Undefined)"
  shows "\<exists>pv. getProp (vals (nodes w' p)) name = Inr pv \<and> getProp pv k = Inr v
          \<and> sameContent pv (vals (nodes w' c))
          \<and> map_of (dirtyMap (nodes w' p)) name = Some (dirty (nodes w' c))"
proof -
  obtain f' where f: "f = Suc f'" using run by (cases f) auto
  from run obtain d where r: "setValueInternal f' c k v d val False nc True True w = Some (Inr w')"
    by (auto simp: f setValue_Suc setValueBody_def thenDo_eq_Inr split: if_splits)
  from child_setValueInternal_sync[OF ord par r] obtain m' pv where
    M: "(if v = Undefined then delProp (target False (nodes w c)) k
         else setProp (target False (nodes w c)) k v) = Inr m'"
    and c: "target False (nodes w' c) = m'" and p: "getProp (target False (nodes w' p)) name = Inr pv"
    and s: "sameContent pv m'" and dm: "map_of (dirtyMap (nodes w' p)) name = Some (dirty (nodes w' c))"
    by blast
  note M = M[unfolded target_def, simplified] and c = c[unfolded target_def, simplified]
    and p = p[unfolded target_def, simplified]
  have "getProp m' k = Inr v"
    using M na getProp_delProp getProp_setProp by (auto split: if_splits)
  then have "getProp pv k = Inr v" using getProp_sameContent[OF s] by simp
  then show ?thesis using p s c dm by auto
qed

theorem child_setValue_upward_sync_witness:
  "ordered familyWorld \<and> parent (nodes familyWorld 2) = Some (1, Name ''address'')
   \<and> setValue 5 2 (Name ''city'') (Str ''Rome'') True False True True True familyWorld
       = Some (Inr (afterRome, True))
   \<and> \<not> (isArray (vals (nodes familyWorld 2)) \<and> Str ''Rome'' = Undefined)
   \<and> (\<exists>pv. getProp (vals (nodes afterRome 1)) (Name ''address'') = Inr pv
          \<and> getProp pv (Name ''city'') = Inr (Str ''Rome'')
          \<and> map_of (dirtyMap (nodes afterRome 1)) (Name ''address'') = Some (dirty (nodes afterRome 2)))"
proof -
  have o: "ordered familyWorld"
    by (auto simp: ordered_def familyWorld_nodes evalDefs split: if_splits)
  have p: "parent (nodes familyWorld 2) = Some (Suc 0, Name ''address'')"
    by (simp add: familyWorld_nodes)
  have n: "\<not> (isArray (vals (nodes familyWorld 2)) \<and> Str ''Rome'' = Undefined)" by simp
  show ?thesis
    using child_setValue_upward_sync[OF o p run_rome n] o p run_rome by auto
qed

text \<open>C2 as stated fails for the call that changes nothing: on the new family,
  \<open>childNode.setValue("city", "Paris")\<close> returns \<open>false\<close> at once; the parent's
  \<open>dirtyMap\<close> has no entry for \<open>address\<close> while \<open>childNode.dirty\<close> is \<open>false\<close>.\<close>

theorem child_setValue_upward_sync_counterexample:
  "setValue 5 2 (Name ''city'') (Str ''Paris'') True False True True True familyWorld
     = Some (Inr (familyWorld, False))
   \<and> map_of (dirtyMap (nodes familyWorld 1)) (Name ''address'') = None
   \<and> dirty (nodes familyWorld 2) = False"
  by (simp add: familyWorld_nodes setValue_numeral setValueBody_def target_def dirty_def)
section \<open>A child node and the field of its parent\<close>







lemma ordered_family: "ordered familyWorld"
  by (auto simp: ordered_def familyWorld_nodes evalDefs split: if_splits)



section \<open>The events of an upward propagation\<close>

lemma heard_emit [simp]: "heard P (emit es w) = heard P w @ filter P es"
  by (simp add: heard_def emit_def)

lemma heard_nextRef [simp]: "heard P (w\<lparr>nextRef := r\<rparr>) = heard P w"
  by (simp add: heard_def)

lemma heard_upd [simp]: "heard P (upd n g w) = heard P w"
  by (simp add: heard_def upd_def)

lemma heard_sviStore:
  "heard P (sviStore n k d isDefault m' w) = heard P w @ filter P [Called n ''setValueInternal'']"
  by (cases d) (simp_all add: sviStore_def Let_def)

lemma valEvent_node: "valEvent T e \<Longrightarrow> T (nodeOf e)"
  by (cases e) (simp_all add: valEvent_def)

lemma valInert_heard_nodes: "(\<And>e. T (nodeOf e) \<Longrightarrow> \<not> P e) \<Longrightarrow> valInert (heard P) T"
  by (rule valInert_heard) (use valEvent_node in blast)

lemma heardWired_props:
  "keepsWiring (both (heard P) wiring)"
  "(\<And>e. T (nodeOf e) \<Longrightarrow> \<not> P e) \<Longrightarrow> valInert (both (heard P) wiring) T"
  by (simp_all add: keepsWiring_both keepsWiring_wiring valInert_both valInert_heard_nodes valInert_wiring)

lemma both_eq: "both p q w' = both p q w \<longleftrightarrow> p w' = p w \<and> q w' = q w"
  by (simp add: both_def)

lemma ordered_closed_up: "ordered w \<Longrightarrow> closed (\<lambda>x. False) (\<lambda>x. x < n) w"
  unfolding ordered_def closed_def by (auto intro: less_trans)

lemma ordered_closed: "ordered w \<Longrightarrow> closed (\<lambda>x. n < x) (\<lambda>x. x < n) w"
  unfolding ordered_def closed_def by (auto intro: less_trans)

lemma ordered_scope: "ordered w \<Longrightarrow> scope (\<lambda>x. n < x) (\<lambda>x. x < n) n down up w"
  unfolding ordered_def scope_def by auto

lemma ordered_scope_up: "ordered w \<Longrightarrow> scope (\<lambda>x. False) (\<lambda>x. x < n) n False up w"
  unfolding ordered_def scope_def by auto

lemma updateParentValues_quiet:
  assumes ord: "ordered w" and nv: "noValidators w"
    and run: "updateParentValues f n isDefault w = Some (Inr w')"
    and ins: "\<And>e. nodeOf e < n \<Longrightarrow> \<not> P e"
  shows "heard P w' = heard P w" "wiring w' = wiring w"
proof -
  have "both (heard P) wiring w' = both (heard P) wiring w"
    by (rule updateParentValues_frame[OF heardWired_props(1) _ ordered_scope_up[OF ord] _ run])
       (use ins nv in \<open>auto simp: ok_def ordered_closed_up[OF ord] intro!: heardWired_props(2)\<close>)
  then show "heard P w' = heard P w" "wiring w' = wiring w" by (simp_all add: both_eq)
qed

lemma sviValidate_none:
  "noValidators w \<Longrightarrow> sviValidate f n val w = ret w"
  by (simp add: sviValidate_def noValidators_def)

lemma sviUp_trace:
  assumes ord: "ordered w" and nv: "noValidators w"
    and run: "sviUp f n isDefault np True w = Some (Inr w')"
    and ins: "\<And>e. nodeOf e < n \<Longrightarrow> \<not> P e"
  shows "heard P w' = heard P w @ filter P (map (\<lambda>l. FiredAny n l False) (anyListeners (nodes w n)))"
    and "wiring w' = wiring w"
proof -
  from run obtain w6 where r: "(if np then updateParentValues f n isDefault w else ret w) = Some (Inr w6)"
    and e: "w' = fireAnyListeners n False w6"
    by (auto simp: sviUp_def thenDo_eq_Inr)
  have q: "heard P w6 = heard P w \<and> wiring w6 = wiring w"
    using r updateParentValues_quiet[OF ord nv _ ins] by (cases np) auto
  then have "anyListeners (nodes w6 n) = anyListeners (nodes w n)"
    using wiring_fields(5)[of w6 w] by simp
  then show "heard P w' = heard P w @ filter P (map (\<lambda>l. FiredAny n l False) (anyListeners (nodes w n)))"
    using q by (simp add: e fireAnyListeners_def)
  show "wiring w' = wiring w" using q by (simp add: e)
qed

lemma copyIn_world: "copyIn v w = Some (Inr (c, w')) \<Longrightarrow> w' = w\<lparr>nextRef := Suc (nextRef w)\<rparr>"
  by (auto simp: copyIn_def split: sum.splits)

lemma sviDown_quiet:
  assumes ord: "ordered w" and nv: "noValidators w"
    and run: "sviDown f n k v isDefault nc w = Some (Inr w')"
    and ins: "\<And>e. n < nodeOf e \<Longrightarrow> \<not> P e"
  shows "heard P w' = heard P w" "wiring w' = wiring w"
proof -
  have "heard P w' = heard P w \<and> wiring w' = wiring w"
  proof (cases "nc \<and> v \<noteq> Undefined")
    case False
    then show ?thesis using run by (auto simp: sviDown_def)
  next
    case True
    show ?thesis
    proof (cases "childMap (nodes w n) k")
      case None
      then show ?thesis using run True by (auto simp: sviDown_def split: if_splits)
    next
      case (Some g)
      from run True Some obtain w3 where
        r: "setValues f g v isDefault True False w = Some (Inr w3)"
        and e: "w' = upd n (\<lambda>nd. nd\<lparr>dirtyMap := assign (dirtyMap nd) k (dirty (nodes w3 g))\<rparr>) w3"
        by (auto simp: sviDown_def thenDo_eq_Inr)
      have ng: "n < g" using ord Some by (auto simp: ordered_def)
      have sc: "scope (\<lambda>x. n < x) (\<lambda>x. x < n) g True False w"
        using ord ng unfolding ordered_def scope_def by (auto intro: less_trans)
      have "both (heard P) wiring w3 = both (heard P) wiring w"
        by (rule setValues_frame[OF heardWired_props(1) _ sc _ r])
           (use ins nv ng in \<open>auto simp: ok_def ordered_closed[OF ord] tset_def
              intro!: heardWired_props(2)\<close>)
      then have "heard P w3 = heard P w" "wiring w3 = wiring w" by (simp_all add: both_eq)
      moreover have "wiring w' = wiring w3" unfolding e by (rule wiring_upd_data) simp
      ultimately show ?thesis by (simp add: e)
    qed
  qed
  then show "heard P w' = heard P w" "wiring w' = wiring w" by simp_all
qed






lemma noValidators_family: "noValidators familyWorld"
  by (simp add: noValidators_def evalDefs)




section \<open>Shared state: what \<open>setState\<close> writes and whom it calls\<close>

lemma isCopyOf_trans: "isCopyOf a b \<Longrightarrow> isCopyOf b c \<Longrightarrow> isCopyOf a c"
  by (cases a; cases b; cases c) auto

lemma memberCopy_isCopyOf: "memberCopy r v = Inr c \<Longrightarrow> isCopyOf v c"
  by (cases v) auto

lemma like_refl [simp]: "like st st"
  by (simp add: like_def)

lemma like_trans: "like st cp \<Longrightarrow> like cp x \<Longrightarrow> like st x"
  unfolding like_def using isCopyOf_trans by blast

lemma stInv_refl [simp]: "stInv st w w"
  by (simp add: stInv_def)

lemma stInv_trans: "stInv st w w1 \<Longrightarrow> stInv st w1 w2 \<Longrightarrow> stInv st w w2"
  unfolding stInv_def by (metis subset_trans)

lemma stInv_like: "stInv cp w w' \<Longrightarrow> like st cp \<Longrightarrow> stInv st w w'"
  unfolding stInv_def using like_trans by blast

lemma stInv_keeps_like: "stInv st w w' \<Longrightarrow> like st (state (nodes w m)) \<Longrightarrow> like st (state (nodes w' m))"
  unfolding stInv_def by metis

lemma stInv_fields:
  assumes "stInv st w w'"
  shows "vals (nodes w' m) = vals (nodes w m)" "childMap (nodes w' m) = childMap (nodes w m)"
    "listeners (nodes w' m) = listeners (nodes w m)" "anyListeners (nodes w' m) = anyListeners (nodes w m)"
    "parent (nodes w' m) = parent (nodes w m)"
proof -
  have "allButState (nodes w' m) = allButState (nodes w m)" using assms by (simp add: stInv_def)
  then show "vals (nodes w' m) = vals (nodes w m)" "childMap (nodes w' m) = childMap (nodes w m)"
    "listeners (nodes w' m) = listeners (nodes w m)" "anyListeners (nodes w' m) = anyListeners (nodes w m)"
    "parent (nodes w' m) = parent (nodes w m)"
    by (simp_all add: allButState_def)
qed

lemma covered_cong_aux:
  assumes "\<And>m. vals (nodes w' m) = vals (nodes w m)" "\<And>m. childMap (nodes w' m) = childMap (nodes w m)"
  shows "covered w n m \<Longrightarrow> covered w' n m"
proof (induction rule: covered.induct)
  case (self n)
  show ?case by (rule covered.self)
next
  case (step n ks k c m)
  show ?case
    by (rule covered.step[of w' n ks k c m]) (use step assms in simp_all)
qed

lemma stInv_covered: "stInv st w w' \<Longrightarrow> covered w' n m = covered w n m"
  using covered_cong_aux[of w' w n m] covered_cong_aux[of w w' n m] stInv_fields(1,2)
  by metis

lemma stInv_emit: "\<forall>e\<in>set es. \<not> loud e \<Longrightarrow> stInv st w (emit es w)"
  by (auto simp: stInv_def emit_def filter_empty_conv)

lemma stInv_fire [simp]: "stInv st w (fireListeners n k False w)"
  unfolding fireListeners_def by (rule stInv_emit) (simp add: loud_def)

lemma stInv_fireAny [simp]: "stInv st w (fireAnyListeners n False w)"
  unfolding fireAnyListeners_def by (rule stInv_emit) (simp add: loud_def)

lemma stInv_nextRef [simp]: "stInv st w (w\<lparr>nextRef := r\<rparr>)"
  by (simp add: stInv_def)

lemma stInv_start:
  "stInv st w (upd n (\<lambda>nd. nd\<lparr>state := st\<rparr>) (emit [Called n ''setState''] w))"
  by (auto simp: stInv_def upd_def emit_def loud_def allButState_def)

lemma forEach_fire_events:
  "forEach ks (\<lambda>w e. ret (fireListeners n e False w)) w = Some (Inr w')
   \<Longrightarrow> stInv st w w'
     \<and> (\<forall>k\<in>set ks. \<forall>l\<in>set (listeners (nodes w n) k). Fired n k l False \<in> set (trace w'))"
proof (induction ks arbitrary: w)
  case Nil
  then show ?case by simp
next
  case (Cons k ks)
  define w1 where "w1 = fireListeners n k False w"
  have r: "forEach ks (\<lambda>w e. ret (fireListeners n e False w)) w1 = Some (Inr w')"
    using Cons.prems by (simp add: w1_def)
  note ih = Cons.IH[OF r]
  have s1: "stInv st w w1" by (simp add: w1_def)
  have n1: "nodes w1 = nodes w" by (simp add: w1_def)
  have "\<forall>l\<in>set (listeners (nodes w n) k). Fired n k l False \<in> set (trace w1)"
    by (auto simp: w1_def fireListeners_def emit_def)
  moreover have "set (trace w1) \<subseteq> set (trace w')" using ih by (simp add: stInv_def)
  ultimately show ?case using ih stInv_trans[OF s1] n1 by auto
qed
lemma forEach_children:
  assumes IH: "setStateOk f"
  shows "forEach ks (\<lambda>w e. case childMap (nodes w n) e of None \<Rightarrow> if inherited e then Some (Inl TypeError) else ret w
                              | Some ch \<Rightarrow> setState f ch st nc np w) w = Some (Inr w')
    \<Longrightarrow> stInv st w w'
      \<and> (nc \<longrightarrow> (\<forall>k\<in>set ks. \<forall>c m. childMap (nodes w n) k = Some c \<longrightarrow> covered w c m
                   \<longrightarrow> like st (state (nodes w' m))))"
proof (induction ks arbitrary: w)
  case Nil
  then show ?case by simp
next
  case (Cons k ks)
  from Cons.prems obtain w1 where
    s: "(case childMap (nodes w n) k of None \<Rightarrow> if inherited k then Some (Inl TypeError) else ret w
          | Some ch \<Rightarrow> setState f ch st nc np w)
        = Some (Inr w1)"
    and r: "forEach ks (\<lambda>w e. case childMap (nodes w n) e of None \<Rightarrow> if inherited e then Some (Inl TypeError) else ret w
                              | Some ch \<Rightarrow> setState f ch st nc np w) w1 = Some (Inr w')"
    by (auto simp: thenDo_eq_Inr)
  note ih = Cons.IH[OF r]
  have s1: "stInv st w w1
    \<and> (nc \<longrightarrow> (\<forall>c m. childMap (nodes w n) k = Some c \<longrightarrow> covered w c m \<longrightarrow> like st (state (nodes w1 m))))"
  proof (cases "childMap (nodes w n) k")
    case None
    then show ?thesis using s by (simp split: if_splits)
  next
    case (Some c)
    then have "setState f c st nc np w = Some (Inr w1)" using s by simp
    with IH have "stInv st w w1 \<and> (nc \<longrightarrow> (\<forall>m. covered w c m \<longrightarrow> like st (state (nodes w1 m))))"
      unfolding setStateOk_def by blast
    then show ?thesis using Some by auto
  qed
  have a: "stInv st w w'" using s1 ih stInv_trans by blast
  have b: "like st (state (nodes w' m))"
    if "nc" "k' \<in> set (k # ks)" "childMap (nodes w n) k' = Some c" "covered w c m" for k' c m
  proof (cases "k' = k")
    case True
    then have "like st (state (nodes w1 m))" using s1 that by blast
    then show ?thesis using ih stInv_keeps_like by blast
  next
    case False
    then have "k' \<in> set ks" using that by simp
    moreover have "childMap (nodes w1 n) k' = Some c" using that stInv_fields(2)[of st w w1] s1 by simp
    moreover have "covered w1 c m" using that stInv_covered[of st w w1] s1 by simp
    ultimately show ?thesis using ih that(1) by blast
  qed
  show ?case using a b by blast
qed

lemma setStateOk_Suc:
  assumes IH1: "setStateOk f" and IH2: "updateParentStateOk f"
  shows "setStateOk (Suc f)"
  unfolding setStateOk_def
proof (intro allI impI)
  fix n st nc np w w'
  assume run: "setState (Suc f) n st nc np w = Some (Inr w')"
  let ?w0 = "upd n (\<lambda>nd. nd\<lparr>state := st\<rparr>) (emit [Called n ''setState''] w)"
  have s0: "stInv st w ?w0" by (rule stInv_start)
  have st0: "state (nodes ?w0 n) = st" by (simp add: upd_def)
  from run have "thenDo (lift (objectKeys (vals (nodes ?w0 n)))) (\<lambda>c.
      thenDo (if nc then forEach c (\<lambda>w e. case childMap (nodes w n) e of None \<Rightarrow> if inherited e then Some (Inl TypeError) else ret w
              | Some ch \<Rightarrow> setState f ch st nc np w) ?w0 else ret ?w0) (\<lambda>w1.
      thenDo (forEach c (\<lambda>w e. ret (fireListeners n e False w)) w1) (\<lambda>w2.
      thenDo (if np then updateParentState f n w2 else ret w2) (\<lambda>w3.
      ret (fireAnyListeners n False w3))))) = Some (Inr w')"
    by (simp add: Let_def)
  then obtain ks w1 w2 w3 where
    K: "objectKeys (vals (nodes ?w0 n)) = Inr ks"
    and D: "(if nc then forEach ks (\<lambda>w e. case childMap (nodes w n) e of None \<Rightarrow> if inherited e then Some (Inl TypeError) else ret w
              | Some ch \<Rightarrow> setState f ch st nc np w) ?w0 else ret ?w0) = Some (Inr w1)"
    and F: "forEach ks (\<lambda>w e. ret (fireListeners n e False w)) w1 = Some (Inr w2)"
    and U: "(if np then updateParentState f n w2 else ret w2) = Some (Inr w3)"
    and e: "w' = fireAnyListeners n False w3"
    by (auto simp: thenDo_eq_Inr lift_def)
  have K': "objectKeys (vals (nodes w n)) = Inr ks" using K stInv_fields(1)[OF s0] by simp
  have d: "stInv st ?w0 w1
    \<and> (nc \<longrightarrow> (\<forall>k\<in>set ks. \<forall>c m. childMap (nodes ?w0 n) k = Some c \<longrightarrow> covered ?w0 c m
                   \<longrightarrow> like st (state (nodes w1 m))))"
    using D forEach_children[OF IH1, where ks = ks and n = n and st = st and nc = nc and np = np and w = ?w0 and w' = w1]
    by (cases nc) auto
  have s1: "stInv st w w1" using s0 d stInv_trans by blast
  note fe = forEach_fire_events[OF F, of st]
  have s2: "stInv st w w2" using s1 fe stInv_trans by blast
  have l2: "like st (state (nodes w2 n))"
    using stInv_keeps_like[of st ?w0 w2 n] d fe stInv_trans st0 by auto
  have u: "stInv st w2 w3"
  proof (cases np)
    case False
    then show ?thesis using U by simp
  next
    case True
    then have "stInv (state (nodes w2 n)) w2 w3" using U IH2 unfolding updateParentStateOk_def by auto
    then show ?thesis using stInv_like l2 by blast
  qed
  have s3: "stInv st w w3" using s2 u stInv_trans by blast
  have sf: "stInv st w w'" using s3 stInv_trans[OF _ stInv_fireAny] by (simp add: e)
  have ln: "like st (state (nodes w' n))"
    using stInv_keeps_like[OF u l2] by (simp add: e)
  have fired: "Fired n k l False \<in> set (trace w')"
    if "k \<in> set ks" "l \<in> set (listeners (nodes w n) k)" for k l
  proof -
    have "listeners (nodes w1 n) k = listeners (nodes w n) k" using stInv_fields(3)[OF s1] by simp
    then have "Fired n k l False \<in> set (trace w2)" using fe that by auto
    moreover have "set (trace w2) \<subseteq> set (trace w')"
      using u stInv_fireAny[of st w3 n] unfolding e stInv_def by blast
    ultimately show ?thesis by blast
  qed
  have anyf: "FiredAny n l False \<in> set (trace w')" if "l \<in> set (anyListeners (nodes w n))" for l
    using that stInv_fields(4)[OF s3, of n] by (auto simp: e fireAnyListeners_def emit_def)
  have cov: "like st (state (nodes w' m))" if nc: "nc" and c: "covered w n m" for m
    using c
  proof (cases rule: covered.cases)
    case self
    then show ?thesis using ln by simp
  next
    case (step ks' k c)
    have "ks' = ks" using step(1) K' by simp
    moreover have "childMap (nodes ?w0 n) k = Some c" using step(3) stInv_fields(2)[OF s0] by simp
    moreover have "covered ?w0 c m" using step(4) stInv_covered[OF s0] by simp
    ultimately have "like st (state (nodes w1 m))" using d nc step(2) by blast
    then have "like st (state (nodes w3 m))"
      using stInv_keeps_like[of st w1 w3 m] fe u stInv_trans by blast
    then show ?thesis by (simp add: e)
  qed
  show "stInv st w w' \<and> like st (state (nodes w' n))
        \<and> (\<forall>ks. objectKeys (vals (nodes w n)) = Inr ks \<longrightarrow>
              (\<forall>k\<in>set ks. \<forall>l\<in>set (listeners (nodes w n) k). Fired n k l False \<in> set (trace w')))
        \<and> (\<forall>l\<in>set (anyListeners (nodes w n)). FiredAny n l False \<in> set (trace w'))
        \<and> (nc \<longrightarrow> (\<forall>m. covered w n m \<longrightarrow> like st (state (nodes w' m))))"
    using sf ln fired anyf cov K' by auto
qed

lemma updateParentStateOk_Suc:
  assumes IH: "setStateOk f"
  shows "updateParentStateOk (Suc f)"
  unfolding updateParentStateOk_def
proof (intro allI impI)
  fix n w w'
  assume run: "updateParentState (Suc f) n w = Some (Inr w')"
  show "stInv (state (nodes w n)) w w'"
  proof (cases "parent (nodes w n)")
    case None
    then show ?thesis using run by simp
  next
    case (Some pk)
    obtain p name where pk: "pk = (p, name)" by (cases pk)
    from run Some pk obtain c w1 where cp: "copyIn (state (nodes w n)) w = Some (Inr (c, w1))"
      and r: "setState f p c False True w1 = Some (Inr w')"
      by (auto simp: thenDo_eq_Inr)
    have e1: "w1 = w\<lparr>nextRef := Suc (nextRef w)\<rparr>" using copyIn_world[OF cp] .
    have lk: "like (state (nodes w n)) c"
      using cp memberCopy_isCopyOf by (auto simp: copyIn_def like_def split: sum.splits)
    have "stInv c w1 w'" using IH r unfolding setStateOk_def by blast
    then have "stInv (state (nodes w n)) w1 w'" using stInv_like lk by blast
    then show ?thesis using stInv_trans[OF stInv_nextRef] by (simp add: e1)
  qed
qed

lemma setState_engine: "setStateOk f \<and> updateParentStateOk f"
proof (induction f)
  case 0
  show ?case by (simp add: setStateOk_def updateParentStateOk_def)
next
  case (Suc f)
  then show ?case using setStateOk_Suc updateParentStateOk_Suc by blast
qed

section \<open>The scalar short-circuit\<close>

lemma filter_onNode_fired [simp]: "filter (onNode n) (map (\<lambda>l. Fired n k l b) ls) = map (\<lambda>l. Fired n k l b) ls"
  by (induction ls) (simp_all add: onNode_def)

lemma filter_onNode_any [simp]: "filter (onNode n) (map (\<lambda>l. FiredAny n l b) ls) = map (\<lambda>l. FiredAny n l b) ls"
  by (induction ls) (simp_all add: onNode_def)

lemma setValueInternal_node_trace:
  assumes ord: "ordered w" and nv: "noValidators w"
    and run: "setValueInternal f n k v d val isDefault nc np fa w = Some (Inr w')"
  shows "heard (onNode n) w' =
           heard (onNode n) w @ fst (ownEvents w n k) @ (if fa then snd (ownEvents w n k) else [])"
proof -
  obtain f' where f: "f = Suc f'" using run by (cases f) auto
  from run[unfolded f] obtain m' w4 w7 where
    A: "sviDown f' n k v isDefault nc (sviStore n k d isDefault m' w) = Some (Inr w4)"
    and B: "sviUp f' n isDefault np fa (fireListeners n k False w4) = Some (Inr w7)"
    and C: "sviValidate f' n val w7 = Some (Inr w')"
    unfolding setValueInternal_steps thenDo_eq_Inr by (auto simp: lift_def)
  define w2 where "w2 = sviStore n k d isDefault m' w"
  have W2: "wiring w2 = wiring w" unfolding w2_def by (rule sviStore_wiring)
  have o2: "ordered w2" using ord wiring_ordered[OF W2] by simp
  have nv2: "noValidators w2" using nv wiring_noValidators[OF W2] by simp
  have insd: "\<not> onNode n e" if "n < nodeOf e" for e using that by (simp add: onNode_def)
  have insu: "\<not> onNode n e" if "nodeOf e < n" for e using that by (simp add: onNode_def)
  note dn = sviDown_quiet[where P = "onNode n", OF o2 nv2 A[folded w2_def] insd]
  have W4: "wiring w4 = wiring w" using dn(2) W2 by simp
  have h4: "heard (onNode n) w4 = heard (onNode n) w @ [Called n ''setValueInternal'']"
    using dn(1) by (simp add: w2_def heard_sviStore onNode_def)
  define w5 where "w5 = fireListeners n k False w4"
  have W5: "wiring w5 = wiring w" using W4 by (simp add: w5_def)
  have o5: "ordered w5" using ord wiring_ordered[OF W5] by simp
  have nv5: "noValidators w5" using nv wiring_noValidators[OF W5] by simp
  have h5: "heard (onNode n) w5 = heard (onNode n) w @ fst (ownEvents w n k)"
    using h4 wiring_fields(4)[OF W4, of n] by (simp add: w5_def fireListeners_def ownEvents_def)
  have h7: "heard (onNode n) w7 =
              heard (onNode n) w @ fst (ownEvents w n k) @ (if fa then snd (ownEvents w n k) else [])
            \<and> wiring w7 = wiring w"
  proof (cases fa)
    case True
    have B': "sviUp f' n isDefault np True w5 = Some (Inr w7)" using B True by (simp add: w5_def)
    note up = sviUp_trace[where P = "onNode n", OF o5 nv5 B' insu]
    show ?thesis
      using up h5 W5 wiring_fields(5)[OF W5, of n] True by (simp add: ownEvents_def)
  next
    case False
    then have "w7 = w5" using B by (simp add: sviUp_def w5_def)
    then show ?thesis using h5 W5 False by simp
  qed
  have nv7: "noValidators w7" using nv wiring_noValidators[of w7 w] h7 by simp
  have "w' = w7" using C sviValidate_none[OF nv7] by simp
  then show ?thesis using h7 by simp
qed

lemma objectKeys_error: "objectKeys x = Inl e \<Longrightarrow> e = TypeError"
  by (cases x) auto

lemma setValues_null:
  "setValues (Suc f) c Null isDefault nc np w = Some (Inl TypeError)"
proof (cases "objectKeys (target isDefault (nodes (emit [Called c ''setValues''] w) c))")
  case (Inl e)
  then show ?thesis using objectKeys_error[OF Inl]
    by (simp add: setValues_Suc setValuesBody_def lift_def)
next
  case (Inr ks)
  then show ?thesis by (simp add: setValues_Suc setValuesBody_def lift_def)
qed
text \<open>
  C5, as the code has it. Let \<open>v\<close> be a scalar (\<open>typeof v\<close> is not \<open>"object"\<close>). (1) When
  the side being written holds under \<open>key\<close> a value \<open>===\<close> to \<open>v\<close>, \<open>setValue\<close> returns
  \<open>false\<close> and the world is the same: no field changed and the trace has no new event, so
  no observer was called. (2) After a call \<open>setValue(key, v)\<close> that returned, on a node of a
  tree, the same call again is that no-op, unless \<open>v\<close> is \<open>NaN\<close> (which is \<open>===\<close> to
  nothing) or \<open>v\<close> is \<open>undefined\<close> and the container is an array (the removal shifts the
  next element into the index) or \<open>key\<close> names an inherited member (a read of it never
  gives \<open>undefined\<close>). (3) In a world made through the constructors, without validators, a
  call that returns \<open>true\<close> adds to the events of the node one entry into
  \<open>setValueInternal\<close>, one call of each field listener of \<open>key\<close> and (with \<open>fireAny\<close>) one
  call of each "any" listener, all with \<open>false\<close>; a call that returns \<open>false\<close> adds
  none. (4) A composite \<open>u\<close> (\<open>null\<close> included) skips the test and goes on to
  \<open>setValueInternal\<close>; whenever the call returns, it returns \<open>true\<close>. (5) It does return
  on a root node without validator whose container is an object, with no child node under
  \<open>key\<close>. (6) It does not return when \<open>u\<close> is \<open>null\<close>, \<open>notifyChild\<close> is set and a child
  node is registered under \<open>key\<close>: the child's \<open>setValues(null)\<close> raises a \<open>TypeError\<close>.
\<close>

theorem setValue_scalar_noop:
  assumes sv: "typeof v \<noteq> ''object''" and cv: "typeof u = ''object''"
  shows "(getProp (target isDefault (nodes w n)) k = Inr cur \<and> strictEq cur v \<longrightarrow>
            setValue (Suc f) n k v val isDefault nc np fa w = Some (Inr (w, False)))
       \<and> (treeAt D U n w \<and> v \<noteq> NaN
          \<and> \<not> (v = Undefined \<and> (isArray (target isDefault (nodes w n)) \<or> inherited k))
          \<and> setValue g n k v val isDefault nc np fa w = Some (Inr (wa, b)) \<longrightarrow>
            setValue (Suc h) n k v val' isDefault nc' np' fa' wa = Some (Inr (wa, False)))
       \<and> (ordered w \<and> noValidators w
          \<and> setValue g n k x val isDefault nc np fa w = Some (Inr (wa, b)) \<longrightarrow>
            heard (onNode n) wa =
              heard (onNode n) w
              @ (if b then fst (ownEvents w n k) @ (if fa then snd (ownEvents w n k) else []) else []))
       \<and> setValue (Suc f) n k u val isDefault nc np fa w =
            thenDo (setValueInternal f n k u None val isDefault nc np fa w) (\<lambda>w'. ret (w', True))
       \<and> (parent (nodes w n) = None \<and> validator (nodes w n) = None \<and> childMap (nodes w n) k = None
          \<and> \<not> inherited k \<and> isKeyed (target isDefault (nodes w n)) \<longrightarrow>
            (\<exists>w'. setValue (Suc (Suc (Suc f))) n k u val isDefault nc np fa w = Some (Inr (w', True))))
       \<and> (nc \<and> childMap (nodes w n) k = Some c \<and> \<not> inherited k
          \<and> isKeyed (target isDefault (nodes w n)) \<longrightarrow>
            setValue (Suc (Suc (Suc f))) n k Null val isDefault nc np fa w = Some (Inl TypeError))"
proof -
  have c1: "setValue (Suc f) n k v val isDefault nc np fa w = Some (Inr (w, False))"
    if "getProp (target isDefault (nodes w n)) k = Inr cur \<and> strictEq cur v"
    using that sv by (simp add: setValue_Suc setValueBody_def)
  have c2: "setValue (Suc h) n k v val' isDefault nc' np' fa' wa = Some (Inr (wa, False))"
    if a: "treeAt D U n w \<and> v \<noteq> NaN
          \<and> \<not> (v = Undefined \<and> (isArray (target isDefault (nodes w n)) \<or> inherited k))
          \<and> setValue g n k v val isDefault nc np fa w = Some (Inr (wa, b))"
  proof -
    from a obtain f' where g: "g = Suc f'" by (cases g) auto
    from a obtain cur where cur: "getProp (target isDefault (nodes w n)) k = Inr cur"
      using sv by (auto simp: g setValue_Suc setValueBody_def thenDo_eq_Inr lift_def)
    have na: "\<not> (isArray (target isDefault (nodes w n)) \<and> v = Undefined)" using a by blast
    have "getProp (target isDefault (nodes wa n)) k = Inr v"
    proof (cases "strictEq cur v")
      case True
      then have "wa = w" using a cur sv by (simp add: g setValue_Suc setValueBody_def)
      moreover have "cur = v" using True strictEq_scalar[OF sv] by simp
      ultimately show ?thesis using cur by simp
    next
      case False
      then obtain d where "setValueInternal f' n k v d val isDefault nc np fa w = Some (Inr wa)"
        using a cur sv by (auto simp: g setValue_Suc setValueBody_def thenDo_eq_Inr lift_def)
      then show ?thesis using setValueInternal_stores[OF _ _ na] a by blast
    qed
    then show ?thesis
      using sv a strictEq_scalar[OF sv] by (simp add: setValue_Suc setValueBody_def)
  qed
  have c3: "heard (onNode n) wa =
              heard (onNode n) w
              @ (if b then fst (ownEvents w n k) @ (if fa then snd (ownEvents w n k) else []) else [])"
    if a: "ordered w \<and> noValidators w
          \<and> setValue g n k x val isDefault nc np fa w = Some (Inr (wa, b))"
  proof -
    from a obtain f' where g: "g = Suc f'" by (cases g) auto
    show ?thesis
    proof (cases b)
      case False
      then have "wa = w" using a
        by (auto simp: g setValue_Suc setValueBody_def thenDo_eq_Inr lift_def split: if_splits)
      then show ?thesis using False by simp
    next
      case True
      then obtain d where "setValueInternal f' n k x d val isDefault nc np fa w = Some (Inr wa)"
        using a by (auto simp: g setValue_Suc setValueBody_def thenDo_eq_Inr lift_def split: if_splits)
      then show ?thesis using setValueInternal_node_trace a True by simp
    qed
  qed
  have c4: "setValue (Suc f) n k u val isDefault nc np fa w =
          thenDo (setValueInternal f n k u None val isDefault nc np fa w) (\<lambda>w'. ret (w', True))"
    using cv by (simp add: setValue_Suc setValueBody_def)
  have c5: "\<exists>w'. setValue (Suc (Suc (Suc f))) n k u val isDefault nc np fa w = Some (Inr (w', True))"
    if r: "parent (nodes w n) = None \<and> validator (nodes w n) = None \<and> childMap (nodes w n) k = None
          \<and> \<not> inherited k \<and> isKeyed (target isDefault (nodes w n))"
  proof -
    from r obtain rf kvs where o: "target isDefault (nodes w n) = Obj rf kvs"
      by (cases "target isDefault (nodes w n)") (auto simp: isKeyed_def)
    have uu: "u \<noteq> Undefined" using cv by auto
    show ?thesis
      using r o uu cv not_inherited_proto[of k]
      by (simp add: setValue_Suc setValueBody_def setValueInternal_steps sviDown_def sviUp_def
          sviValidate_def updateParentValues_Suc updateParentValuesBody_def sviStore_nodes
          wiring_fields[OF sviStore_wiring])
  qed
  have c6: "setValue (Suc (Suc (Suc f))) n k Null val isDefault nc np fa w = Some (Inl TypeError)"
    if r: "nc \<and> childMap (nodes w n) k = Some c \<and> \<not> inherited k
          \<and> isKeyed (target isDefault (nodes w n))"
  proof -
    from r obtain rf kvs where o: "target isDefault (nodes w n) = Obj rf kvs"
      by (cases "target isDefault (nodes w n)") (auto simp: isKeyed_def)
    show ?thesis
      using r o not_inherited_proto[of k]
      by (simp add: setValue_Suc setValueBody_def setValueInternal_steps sviDown_def
          setValues_null wiring_fields[OF sviStore_wiring])
  qed
  show ?thesis using c1 c2 c3 c4 c5 c6 by blast
qed
lemma run_paris:
  "setValue (Suc 0) 2 (Name ''city'') (Str ''Paris'') True False True True True familyWorld
     = Some (Inr (familyWorld, False))"
  by (simp add: setValue_Suc setValueBody_def familyWorld_nodes target_def lift_def)

theorem setValue_scalar_noop_witness:
  "typeof (Str ''Rome'') \<noteq> ''object'' \<and> typeof Null = ''object''
   \<and> getProp (target False (nodes familyWorld 2)) (Name ''city'') = Inr (Str ''Paris'')
   \<and> strictEq (Str ''Paris'') (Str ''Paris'')
   \<and> setValue (Suc 0) 2 (Name ''city'') (Str ''Paris'') True False True True True familyWorld
       = Some (Inr (familyWorld, False))
   \<and> treeAt (\<lambda>x. False) (\<lambda>x. x = 1) 2 familyWorld \<and> Str ''Rome'' \<noteq> NaN
   \<and> ordered familyWorld \<and> noValidators familyWorld
   \<and> setValue 5 2 (Name ''city'') (Str ''Rome'') True False True True True familyWorld
       = Some (Inr (afterRome, True))
   \<and> setValue (Suc 0) 2 (Name ''city'') (Str ''Rome'') True False True True True afterRome
       = Some (Inr (afterRome, False))
   \<and> heard (onNode 2) afterRome = [Called 2 ''setValueInternal'', FiredAny 2 0 False]
   \<and> parent (nodes familyWorld 1) = None \<and> validator (nodes familyWorld 1) = None
   \<and> childMap (nodes familyWorld 1) (Name ''zip'') = None \<and> \<not> inherited (Name ''zip'')
   \<and> isKeyed (target False (nodes familyWorld 1))
   \<and> (\<exists>w'. setValue (Suc (Suc (Suc 0))) 1 (Name ''zip'') Null True False True True True familyWorld
          = Some (Inr (w', True)))
   \<and> childMap (nodes familyWorld 1) (Name ''address'') = Some 2 \<and> \<not> inherited (Name ''address'')
   \<and> setValue (Suc (Suc (Suc 0))) 1 (Name ''address'') Null True False True True True familyWorld
       = Some (Inl TypeError)"
  using
    setValue_scalar_noop[where v = "Str ''Rome''" and u = Null and isDefault = False
      and w = familyWorld and n = 2 and k = "Name ''city''" and D = "\<lambda>x. False" and U = "\<lambda>x. x = 1"
      and g = 5 and wa = afterRome and b = True and h = 0 and val = True and nc = True
      and np = True and fa = True and val' = True and nc' = True and np' = True and fa' = True
      and x = "Str ''Rome''"]
    setValue_scalar_noop[where v = "Str ''Paris''" and u = Null and isDefault = False
      and w = familyWorld and n = 2 and k = "Name ''city''" and cur = "Str ''Paris''" and f = 0
      and val = True and nc = True and np = True and fa = True]
    setValue_scalar_noop[where v = "Str ''Paris''" and u = Null and isDefault = False
      and w = familyWorld and n = 1 and k = "Name ''zip''" and f = 0
      and val = True and nc = True and np = True and fa = True]
    setValue_scalar_noop[where v = "Str ''Paris''" and u = Null and isDefault = False
      and w = familyWorld and n = 1 and k = "Name ''address''" and f = 0 and c = 2
      and val = True and nc = True and np = True and fa = True]
    treeAt_family_child run_rome ordered_family noValidators_family
  by (simp add: familyWorld_nodes target_def isKeyed_def inherited_def objectProto_def
      ownEvents_def heard_def)

text \<open>C5 as stated fails in three ways. \<open>NaN\<close> is a scalar and is what the node holds
  after \<open>setValue("city", NaN)\<close>, yet the same call again returns \<open>true\<close> and notifies the
  observers a second time. On a node over the array \<open>[1, 2, 3]\<close>, \<open>setValue(0, undefined)\<close>
  twice in a row returns \<open>true\<close> twice: after the first removal the index holds 2. And the
  composite \<open>null\<close>, written to the field \<open>address\<close> of the root of the family, does not
  return \<open>true\<close>: the call ends in a \<open>TypeError\<close>.\<close>

theorem setValue_scalar_noop_counterexample:
  "typeof NaN \<noteq> ''object''
   \<and> twice 2 (Name ''city'') NaN familyWorld =
       Some (Inr (True, Inr NaN, True,
         [Called 2 ''setValueInternal'', Called 1 ''setValueInternal'',
          Fired 1 (Name ''address'') 0 False, FiredAny 1 1 False, FiredAny 2 0 False,
          Called 2 ''setValueInternal'', Called 1 ''setValueInternal'',
          Fired 1 (Name ''address'') 0 False, FiredAny 1 1 False, FiredAny 2 0 False]))
   \<and> twice 1 (Index 0) Undefined arrayWorld =
       Some (Inr (True, Inr (Num 2), True, [Called 1 ''setValueInternal'', Called 1 ''setValueInternal'']))
   \<and> typeof Null = ''object''
   \<and> setValue 5 1 (Name ''address'') Null True False True True True familyWorld = Some (Inl TypeError)"
  by (simp add: twice_def arrayWorld_def splice1_def evalDefs)

section \<open>Writing \<open>null\<close>\<close>

text \<open>
  C10 at a failing input. \<open>typeof null\<close> is \<open>"object"\<close>, so \<open>setValue(key, null)\<close> skips
  the equality test and goes on to \<open>setValueInternal\<close>. There the downward push is guarded
  by \<open>notifyChild && value !== undefined\<close>, which \<open>null\<close> passes: on the root of the
  family, whose field \<open>address\<close> has the child node 2, \<open>setValue("address", null)\<close> calls
  the child's \<open>setValues(null)\<close> and ends in the \<open>TypeError\<close> of \<open>Object.keys(null)\<close>,
  with any fuel that lets the call reach that point. The sibling path, \<open>setValue("address",
  undefined)\<close>, skips the child node and returns \<open>true\<close>. Where no child node is registered
  (the field \<open>zip\<close>) the call does what the claim says: \<open>null\<close> is written, the call
  returns \<open>true\<close>, and the same call again, with \<open>null\<close> already stored, returns \<open>true\<close> and
  calls the observers again.
\<close>

theorem setValue_null_child_throws:
  "childMap (nodes familyWorld 1) (Name ''address'') = Some 2
   \<and> setValue (Suc (Suc (Suc f))) 1 (Name ''address'') Null True False True True True familyWorld
       = Some (Inl TypeError)
   \<and> setValue 5 1 (Name ''address'') Undefined True False True True True familyWorld
       = Some (Inr (afterRemoval, True))
   \<and> heard (callsOn 2) afterRemoval = []
   \<and> setValue 5 1 (Name ''zip'') Null True False True True True familyWorld
       = Some (Inr (afterNull, True))
   \<and> getProp (vals (nodes afterNull 1)) (Name ''zip'') = Inr Null
   \<and> trace afterNull = [Called 1 ''setValueInternal'', FiredAny 1 1 False]
   \<and> thenDo (setValue 5 1 (Name ''zip'') Null True False True True True afterNull)
        (\<lambda>(w, b). ret (b, getProp (vals (nodes w 1)) (Name ''zip''), trace w))
       = Some (Inr (True, Inr Null,
           [Called 1 ''setValueInternal'', FiredAny 1 1 False,
            Called 1 ''setValueInternal'', FiredAny 1 1 False]))"
  by (simp add: afterRemoval_def afterNull_def heard_def callsOn_def evalDefs)

section \<open>The flag the listeners receive\<close>










lemma heard_fireListeners_any [simp]: "heard (anyTrueOn m) (fireListeners n k b w) = heard (anyTrueOn m) w"
  by (simp add: fireListeners_def anyTrueOn_def filter_empty_conv)

lemma heard_fireAny_False [simp]:
  "heard (anyTrueOn m) (fireAnyListeners n False w) = heard (anyTrueOn m) w"
  by (simp add: fireAnyListeners_def anyTrueOn_def filter_empty_conv)














section \<open>Shared state: the events of a run and the nodes it leaves alone\<close>

lemma above_cong_aux:
  assumes "\<And>m. parent (nodes w' m) = parent (nodes w m)"
  shows "above w x q \<Longrightarrow> above w' x q"
proof (induction rule: above.induct)
  case (direct x p k)
  then show ?case using assms above.direct[of w' x p k] by simp
next
  case (further x p k q)
  then show ?case using assms above.further[of w' x p k q] by simp
qed

lemma stInv_above: "stInv st w w' \<Longrightarrow> above w' x q = above w x q"
  using above_cong_aux[of w' w x q] above_cong_aux[of w w' x q] stInv_fields(5)
  by metis

lemma stInv_touched: "stInv st w w' \<Longrightarrow> touched w' n nc np m = touched w n nc np m"
  unfolding touched_def using stInv_above[of st w w'] stInv_covered[of st w w'] by simp

lemma stInv_present: "stInv st w w' \<Longrightarrow> present w' m k = present w m k"
  unfolding present_def using stInv_fields(1)[of st w w'] by simp

lemma stInv_stateEvent: "stInv st w w' \<Longrightarrow> stateEvent w' e = stateEvent w e"
  unfolding stateEvent_def using stInv_present[of st w w'] by (cases e) simp_all

lemma stInv_stateEvents: "stInv st w w' \<Longrightarrow> list_all (stateEvent w') evs = list_all (stateEvent w) evs"
  using stInv_stateEvent[of st w w'] by (simp add: list_all_iff)

lemma above_parent:
  assumes "above w x q" and "parent (nodes w x) = Some (p, k)"
  shows "q = p \<or> above w p q"
  using assms by (cases rule: above.cases) auto

lemma above_root: "parent (nodes w x) = None \<Longrightarrow> \<not> above w x q"
  by (auto elim: above.cases)

lemma covered_trans: "covered w n c \<Longrightarrow> covered w c m \<Longrightarrow> covered w n m"
  by (induction rule: covered.induct) (auto intro: covered.step)

lemma covered_child:
  "objectKeys (vals (nodes w n)) = Inr ks \<Longrightarrow> k \<in> set ks \<Longrightarrow> childMap (nodes w n) k = Some c
   \<Longrightarrow> covered w n c"
  by (rule covered.step[of w n ks k c c]) (simp_all add: covered.self)

lemma touched_child:
  assumes "covered w n c" and "touched w c True np m"
  shows "touched w n True np m"
  using assms covered_trans[of w n c] unfolding touched_def by blast
lemma stMore_start:
  "trace (upd n (\<lambda>nd. nd\<lparr>state := st\<rparr>) (emit [Called n ''setState''] w))
     = trace w @ [Called n ''setState'']"
  by (simp add: upd_def emit_def)

lemma updateParentStateMore_Suc:
  assumes IH: "setStateMore f"
  shows "updateParentStateMore (Suc f)"
  unfolding updateParentStateMore_def
proof (intro allI impI)
  fix n w w'
  assume run: "updateParentState (Suc f) n w = Some (Inr w')"
  show "\<exists>evs. upMore n w w' evs"
  proof (cases "parent (nodes w n)")
    case None
    then have "w' = w" using run by simp
    then have "upMore n w w' []" using above_root[OF None] by (simp add: upMore_def)
    then show ?thesis by blast
  next
    case (Some pk)
    obtain p name where pk: "pk = (p, name)" by (cases pk)
    have par: "parent (nodes w n) = Some (p, name)" using Some pk by simp
    from run par obtain c w1 where cp: "copyIn (state (nodes w n)) w = Some (Inr (c, w1))"
      and r: "setState f p c False True w1 = Some (Inr w')"
      by (auto simp: thenDo_eq_Inr)
    have e1: "w1 = w\<lparr>nextRef := Suc (nextRef w)\<rparr>" using copyIn_world[OF cp] .
    have s1: "stInv c w w1" by (simp add: e1)
    have lk: "like (state (nodes w n)) c"
      using cp memberCopy_isCopyOf by (auto simp: copyIn_def like_def split: sum.splits)
    from IH r obtain evs where m: "stMore p c False True w1 w' evs"
      unfolding setStateMore_def by blast
    have lp: "like c (state (nodes w' p))"
      using setState_engine[of f] r unfolding setStateOk_def by blast
    have t: "trace w' = trace w @ evs" using m by (simp add: stMore_def e1)
    have q: "list_all (stateEvent w) evs"
      using m stInv_stateEvents[OF s1] by (simp add: stMore_def)
    have ab: "like (state (nodes w n)) (state (nodes w' q)) \<and> Called q ''setState'' \<in> set evs"
      if a: "above w n q" for q
    proof -
      from above_parent[OF a par] show ?thesis
      proof
        assume "q = p"
        then show ?thesis using lp lk like_trans m by (auto simp: stMore_def)
      next
        assume "above w p q"
        then have "above w1 p q" using stInv_above[OF s1] by simp
        then have "like c (state (nodes w' q)) \<and> Called q ''setState'' \<in> set evs"
          using m by (simp add: stMore_def)
        then show ?thesis using lk like_trans by blast
      qed
    qed
    have un: "state (nodes w' m) = state (nodes w m) \<and> (\<forall>e. e \<in> set evs \<longrightarrow> nodeOf e \<noteq> m)"
      if a: "\<not> above w n m" for m
    proof -
      have "m \<noteq> p" using a above.direct[OF par] by blast
      moreover have "\<not> above w p m" using a above.further[OF par] by blast
      ultimately have "\<not> touched w1 p False True m"
        using stInv_above[OF s1] by (simp add: touched_def)
      then have "state (nodes w' m) = state (nodes w1 m) \<and> (\<forall>e. e \<in> set evs \<longrightarrow> nodeOf e \<noteq> m)"
        using m by (simp add: stMore_def)
      then show ?thesis by (simp add: e1)
    qed
    have "upMore n w w' evs" unfolding upMore_def using t q ab un by blast
    then show ?thesis by blast
  qed
qed
lemma forEach_children_more:
  assumes IH: "setStateMore f"
  shows "forEach ks (\<lambda>w e. case childMap (nodes w n) e of
                              None \<Rightarrow> if inherited e then Some (Inl TypeError) else ret w
                            | Some ch \<Rightarrow> setState f ch st True np w) w = Some (Inr w')
    \<Longrightarrow> \<exists>evs. trace w' = trace w @ evs \<and> list_all (stateEvent w) evs
          \<and> (\<forall>k c m. k \<in> set ks \<and> childMap (nodes w n) k = Some c \<and> covered w c m
                \<longrightarrow> Called m ''setState'' \<in> set evs)
          \<and> (\<forall>m. (\<forall>k c. k \<in> set ks \<and> childMap (nodes w n) k = Some c \<longrightarrow> \<not> touched w c True np m)
                \<longrightarrow> state (nodes w' m) = state (nodes w m) \<and> (\<forall>e. e \<in> set evs \<longrightarrow> nodeOf e \<noteq> m))"
proof (induction ks arbitrary: w)
  case Nil
  then have "w' = w" by simp
  then show ?case by simp
next
  case (Cons k ks)
  from Cons.prems obtain w1 where
    s: "(case childMap (nodes w n) k of
           None \<Rightarrow> if inherited k then Some (Inl TypeError) else ret w
         | Some ch \<Rightarrow> setState f ch st True np w) = Some (Inr w1)"
    and r: "forEach ks (\<lambda>w e. case childMap (nodes w n) e of
                              None \<Rightarrow> if inherited e then Some (Inl TypeError) else ret w
                            | Some ch \<Rightarrow> setState f ch st True np w) w1 = Some (Inr w')"
    by (auto simp: thenDo_eq_Inr)
  have first: "stInv st w w1 \<and> (\<exists>evs. trace w1 = trace w @ evs \<and> list_all (stateEvent w) evs
          \<and> (\<forall>c m. childMap (nodes w n) k = Some c \<and> covered w c m \<longrightarrow> Called m ''setState'' \<in> set evs)
          \<and> (\<forall>m. (\<forall>c. childMap (nodes w n) k = Some c \<longrightarrow> \<not> touched w c True np m)
                \<longrightarrow> state (nodes w1 m) = state (nodes w m) \<and> (\<forall>e. e \<in> set evs \<longrightarrow> nodeOf e \<noteq> m)))"
  proof (cases "childMap (nodes w n) k")
    case None
    then have "w1 = w" using s by (simp split: if_splits)
    then show ?thesis using None by simp
  next
    case (Some c)
    then have run: "setState f c st True np w = Some (Inr w1)" using s by simp
    have i: "stInv st w w1" using setState_engine[of f] run unfolding setStateOk_def by blast
    from IH run obtain evs where m: "stMore c st True np w w1 evs"
      unfolding setStateMore_def by blast
    have "trace w1 = trace w @ evs \<and> list_all (stateEvent w) evs
          \<and> (\<forall>m. covered w c m \<longrightarrow> Called m ''setState'' \<in> set evs)
          \<and> (\<forall>m. \<not> touched w c True np m
                \<longrightarrow> state (nodes w1 m) = state (nodes w m) \<and> (\<forall>e. e \<in> set evs \<longrightarrow> nodeOf e \<noteq> m))"
      using m unfolding stMore_def by simp
    then show ?thesis using i Some by auto
  qed
  then obtain evs1 where i1: "stInv st w w1"
    and t1: "trace w1 = trace w @ evs1" and q1: "list_all (stateEvent w) evs1"
    and c1: "\<And>c m. childMap (nodes w n) k = Some c \<Longrightarrow> covered w c m \<Longrightarrow> Called m ''setState'' \<in> set evs1"
    and u1: "\<And>m. (\<forall>c. childMap (nodes w n) k = Some c \<longrightarrow> \<not> touched w c True np m)
                \<Longrightarrow> state (nodes w1 m) = state (nodes w m) \<and> (\<forall>e. e \<in> set evs1 \<longrightarrow> nodeOf e \<noteq> m)"
    by blast
  from Cons.IH[OF r] obtain evs2 where t2: "trace w' = trace w1 @ evs2"
    and q2: "list_all (stateEvent w1) evs2"
    and c2: "\<And>k c m. k \<in> set ks \<Longrightarrow> childMap (nodes w1 n) k = Some c \<Longrightarrow> covered w1 c m
                \<Longrightarrow> Called m ''setState'' \<in> set evs2"
    and u2: "\<And>m. (\<forall>k c. k \<in> set ks \<and> childMap (nodes w1 n) k = Some c \<longrightarrow> \<not> touched w1 c True np m)
                \<Longrightarrow> state (nodes w' m) = state (nodes w1 m) \<and> (\<forall>e. e \<in> set evs2 \<longrightarrow> nodeOf e \<noteq> m)"
    by blast
  have cm: "childMap (nodes w1 n) = childMap (nodes w n)" using stInv_fields(2)[OF i1] by simp
  have a: "trace w' = trace w @ (evs1 @ evs2)" using t1 t2 by simp
  have b: "list_all (stateEvent w) (evs1 @ evs2)"
    using q1 q2 stInv_stateEvents[OF i1] by simp
  have c: "Called m ''setState'' \<in> set (evs1 @ evs2)"
    if "k' \<in> set (k # ks)" "childMap (nodes w n) k' = Some c" "covered w c m" for k' c m
  proof (cases "k' = k")
    case True
    then show ?thesis using c1 that by auto
  next
    case False
    then have "k' \<in> set ks" using that by simp
    then show ?thesis using c2[of k' c m] that cm stInv_covered[OF i1] by auto
  qed
  have d: "state (nodes w' m) = state (nodes w m) \<and> (\<forall>e. e \<in> set (evs1 @ evs2) \<longrightarrow> nodeOf e \<noteq> m)"
    if h: "\<forall>k' c. k' \<in> set (k # ks) \<and> childMap (nodes w n) k' = Some c \<longrightarrow> \<not> touched w c True np m"
    for m
  proof -
    have "\<forall>c. childMap (nodes w n) k = Some c \<longrightarrow> \<not> touched w c True np m" using h by auto
    note x = u1[OF this]
    have "\<forall>k' c. k' \<in> set ks \<and> childMap (nodes w1 n) k' = Some c \<longrightarrow> \<not> touched w1 c True np m"
      using h cm stInv_touched[OF i1] by auto
    note y = u2[OF this]
    show ?thesis using x y by auto
  qed
  show ?case using a b c d by blast
qed
lemma emit_emit: "emit b (emit a w) = emit (a @ b) w"
  by (simp add: emit_def)

lemma fieldEvents_nodes: "nodes w' = nodes w \<Longrightarrow> fieldEvents w' n ks = fieldEvents w n ks"
  by (simp add: fieldEvents_def)

lemma forEach_fire_exact:
  "forEach ks (\<lambda>w e. ret (fireListeners n e False w)) w = ret (emit (fieldEvents w n ks) w)"
proof (induction ks arbitrary: w)
  case Nil
  show ?case by (simp add: fieldEvents_def emit_def)
next
  case (Cons k ks)
  define w1 where "w1 = fireListeners n k False w"
  have n1: "nodes w1 = nodes w" by (simp add: w1_def)
  have "forEach (k # ks) (\<lambda>w e. ret (fireListeners n e False w)) w
          = ret (emit (fieldEvents w1 n ks) w1)"
    using Cons.IH[of w1] by (simp add: w1_def)
  also have "emit (fieldEvents w1 n ks) w1 = emit (fieldEvents w n (k # ks)) w"
    using fieldEvents_nodes[OF n1, of n ks]
    by (simp add: w1_def fireListeners_def emit_emit fieldEvents_def)
  finally show ?case .
qed

lemma fieldEvents_set:
  "e \<in> set (fieldEvents w n ks) \<longleftrightarrow> (\<exists>k l. k \<in> set ks \<and> l \<in> set (listeners (nodes w n) k) \<and> e = Fired n k l False)"
  by (auto simp: fieldEvents_def)

lemma setStateMore_Suc:
  assumes IH1: "setStateMore f" and IH2: "updateParentStateMore f"
  shows "setStateMore (Suc f)"
  unfolding setStateMore_def
proof (intro allI impI)
  fix n st nc np w w'
  assume run: "setState (Suc f) n st nc np w = Some (Inr w')"
  let ?w0 = "upd n (\<lambda>nd. nd\<lparr>state := st\<rparr>) (emit [Called n ''setState''] w)"
  have s0: "stInv st w ?w0" by (rule stInv_start)
  have st0: "state (nodes ?w0 n) = st" by (simp add: upd_def)
  have t0: "trace ?w0 = trace w @ [Called n ''setState'']" by (rule stMore_start)
  have o0: "state (nodes ?w0 m) = state (nodes w m)" if "m \<noteq> n" for m
    using that by (simp add: upd_def)
  from run have "thenDo (lift (objectKeys (vals (nodes ?w0 n)))) (\<lambda>c.
      thenDo (if nc then forEach c (\<lambda>w e. case childMap (nodes w n) e of
                None \<Rightarrow> if inherited e then Some (Inl TypeError) else ret w
              | Some ch \<Rightarrow> setState f ch st nc np w) ?w0 else ret ?w0) (\<lambda>w1.
      thenDo (forEach c (\<lambda>w e. ret (fireListeners n e False w)) w1) (\<lambda>w2.
      thenDo (if np then updateParentState f n w2 else ret w2) (\<lambda>w3.
      ret (fireAnyListeners n False w3))))) = Some (Inr w')"
    by (simp add: Let_def)
  then obtain ks w1 w2 w3 where
    K: "objectKeys (vals (nodes ?w0 n)) = Inr ks"
    and D: "(if nc then forEach ks (\<lambda>w e. case childMap (nodes w n) e of
                None \<Rightarrow> if inherited e then Some (Inl TypeError) else ret w
              | Some ch \<Rightarrow> setState f ch st nc np w) ?w0 else ret ?w0) = Some (Inr w1)"
    and F: "forEach ks (\<lambda>w e. ret (fireListeners n e False w)) w1 = Some (Inr w2)"
    and U: "(if np then updateParentState f n w2 else ret w2) = Some (Inr w3)"
    and e: "w' = fireAnyListeners n False w3"
    by (auto simp: thenDo_eq_Inr lift_def)
  have K': "objectKeys (vals (nodes w n)) = Inr ks" using K stInv_fields(1)[OF s0] by simp
  have pr: "present w n k \<longleftrightarrow> k \<in> set ks" for k by (simp add: present_def K')
  have full: "stInv st w w'" "like st (state (nodes w' n))"
    using setState_engine[of "Suc f"] run unfolding setStateOk_def by blast+
  have down: "stInv st ?w0 w1 \<and> (\<exists>evs. trace w1 = trace ?w0 @ evs \<and> list_all (stateEvent w) evs
      \<and> (nc \<longrightarrow> (\<forall>k c m. k \<in> set ks \<and> childMap (nodes w n) k = Some c \<and> covered w c m
                \<longrightarrow> Called m ''setState'' \<in> set evs))
      \<and> (\<forall>m. \<not> touched w n nc np m \<longrightarrow>
             state (nodes w1 m) = state (nodes ?w0 m) \<and> (\<forall>e. e \<in> set evs \<longrightarrow> nodeOf e \<noteq> m)))"
  proof (cases nc)
    case False
    then have "w1 = ?w0" using D by simp
    then show ?thesis using False by simp
  next
    case True
    have L: "forEach ks (\<lambda>w e. case childMap (nodes w n) e of
                None \<Rightarrow> if inherited e then Some (Inl TypeError) else ret w
              | Some ch \<Rightarrow> setState f ch st True np w) ?w0 = Some (Inr w1)"
      using D unfolding eqTrueI[OF True] by simp
    have i: "stInv st ?w0 w1"
      using forEach_children[OF conjunct1[OF setState_engine[of f]], where ks = ks and n = n
          and st = st and nc = True and np = np and w = ?w0 and w' = w1] L by blast
    from forEach_children_more[OF IH1 L] obtain evs where
      t: "trace w1 = trace ?w0 @ evs" and q: "list_all (stateEvent ?w0) evs"
      and c: "\<And>k c m. k \<in> set ks \<Longrightarrow> childMap (nodes ?w0 n) k = Some c \<Longrightarrow> covered ?w0 c m
                \<Longrightarrow> Called m ''setState'' \<in> set evs"
      and u: "\<And>m. (\<forall>k c. k \<in> set ks \<and> childMap (nodes ?w0 n) k = Some c \<longrightarrow> \<not> touched ?w0 c True np m)
                \<Longrightarrow> state (nodes w1 m) = state (nodes ?w0 m) \<and> (\<forall>e. e \<in> set evs \<longrightarrow> nodeOf e \<noteq> m)"
      by blast
    have cm: "childMap (nodes ?w0 n) = childMap (nodes w n)" using stInv_fields(2)[OF s0] by simp
    have q': "list_all (stateEvent w) evs" using q stInv_stateEvents[OF s0] by simp
    have c': "Called m ''setState'' \<in> set evs"
      if "k \<in> set ks" "childMap (nodes w n) k = Some c" "covered w c m" for k c m
      using c[of k c m] that cm stInv_covered[OF s0] by simp
    have u': "state (nodes w1 m) = state (nodes ?w0 m) \<and> (\<forall>e. e \<in> set evs \<longrightarrow> nodeOf e \<noteq> m)"
      if nt: "\<not> touched w n nc np m" for m
    proof (rule u, intro allI impI)
      fix k c assume a: "k \<in> set ks \<and> childMap (nodes ?w0 n) k = Some c"
      then have "covered w n c" using covered_child[OF K', of k c] cm by simp
      then have "\<not> touched w c True np m"
        using touched_child[of w n c np m] nt[unfolded eqTrueI[OF True]] by blast
      then show "\<not> touched ?w0 c True np m" using stInv_touched[OF s0] by simp
    qed
    show ?thesis using i t q' c' u' by blast
  qed
  then obtain evsD where i1: "stInv st ?w0 w1" and tD: "trace w1 = trace ?w0 @ evsD"
    and qD: "list_all (stateEvent w) evsD"
    and cD: "\<And>k c m. nc \<Longrightarrow> k \<in> set ks \<Longrightarrow> childMap (nodes w n) k = Some c \<Longrightarrow> covered w c m
                \<Longrightarrow> Called m ''setState'' \<in> set evsD"
    and uD: "\<And>m. \<not> touched w n nc np m \<Longrightarrow>
             state (nodes w1 m) = state (nodes ?w0 m) \<and> (\<forall>e. e \<in> set evsD \<longrightarrow> nodeOf e \<noteq> m)"
    by blast
  have s1: "stInv st w w1" using s0 i1 stInv_trans by blast
  have e2: "w2 = emit (fieldEvents w1 n ks) w1" using F by (simp add: forEach_fire_exact)
  have fe: "fieldEvents w1 n ks = fieldEvents w n ks"
    using stInv_fields(3)[OF s1] by (simp add: fieldEvents_def)
  have n2: "nodes w2 = nodes w1" by (simp add: e2)
  have s2: "stInv st w w2"
    using setState_engine[of "Suc f"] s1 forEach_fire_events[OF F, of st] stInv_trans by blast
  have l2: "like st (state (nodes w2 n))"
    using stInv_keeps_like[OF i1, of n] st0 by (simp add: n2)
  have up: "\<exists>evs. trace w3 = trace w2 @ evs \<and> list_all (stateEvent w) evs
      \<and> (np \<longrightarrow> (\<forall>q. above w n q \<longrightarrow> like st (state (nodes w3 q)) \<and> Called q ''setState'' \<in> set evs))
      \<and> (\<forall>m. \<not> touched w n nc np m \<longrightarrow>
             state (nodes w3 m) = state (nodes w2 m) \<and> (\<forall>e. e \<in> set evs \<longrightarrow> nodeOf e \<noteq> m))"
  proof (cases np)
    case False
    then have "w3 = w2" using U by simp
    then show ?thesis using False by simp
  next
    case True
    then have "updateParentState f n w2 = Some (Inr w3)" using U by simp
    with IH2 obtain evs where m: "upMore n w2 w3 evs" unfolding updateParentStateMore_def by blast
    have t: "trace w3 = trace w2 @ evs" using m by (simp add: upMore_def)
    have q: "list_all (stateEvent w) evs" using m stInv_stateEvents[OF s2] by (simp add: upMore_def)
    have a: "like st (state (nodes w3 q)) \<and> Called q ''setState'' \<in> set evs" if "above w n q" for q
    proof -
      have "above w2 n q" using that stInv_above[OF s2] by simp
      then have "like (state (nodes w2 n)) (state (nodes w3 q)) \<and> Called q ''setState'' \<in> set evs"
        using m by (simp add: upMore_def)
      then show ?thesis using l2 like_trans by blast
    qed
    have u: "state (nodes w3 m) = state (nodes w2 m) \<and> (\<forall>e. e \<in> set evs \<longrightarrow> nodeOf e \<noteq> m)"
      if "\<not> touched w n nc np m" for m
    proof -
      have "\<not> above w n m" using that True by (auto simp: touched_def)
      then have "\<not> above w2 n m" using stInv_above[OF s2] by simp
      then show ?thesis using m by (simp add: upMore_def)
    qed
    show ?thesis using t q a u by blast
  qed
  then obtain evsU where tU: "trace w3 = trace w2 @ evsU" and qU: "list_all (stateEvent w) evsU"
    and aU: "\<And>q. np \<Longrightarrow> above w n q \<Longrightarrow> like st (state (nodes w3 q)) \<and> Called q ''setState'' \<in> set evsU"
    and uU: "\<And>m. \<not> touched w n nc np m \<Longrightarrow>
             state (nodes w3 m) = state (nodes w2 m) \<and> (\<forall>e. e \<in> set evsU \<longrightarrow> nodeOf e \<noteq> m)"
    by blast
  have al: "anyListeners (nodes w3 n) = anyListeners (nodes w n)"
    using stInv_fields(4)[OF full(1), of n] by (simp add: e)
  define evsA where "evsA = map (\<lambda>l. FiredAny n l False) (anyListeners (nodes w n))"
  define evs where "evs = [Called n ''setState''] @ evsD @ fieldEvents w n ks @ evsU @ evsA"
  have T: "trace w' = trace w @ evs"
    using t0 tD tU al fe by (simp add: e e2 evs_def evsA_def fireAnyListeners_def emit_def)
  have qF: "list_all (stateEvent w) (fieldEvents w n ks)"
    by (auto simp: list_all_iff fieldEvents_set stateEvent_def pr)
  have qA: "list_all (stateEvent w) evsA"
    by (auto simp: list_all_iff evsA_def stateEvent_def)
  have Q: "list_all (stateEvent w) evs"
    using qD qF qU qA by (simp add: evs_def stateEvent_def)
  have C: "Called n ''setState'' \<in> set evs" by (simp add: evs_def)
  have Fi: "Fired n k l False \<in> set evs"
    if "present w n k \<and> l \<in> set (listeners (nodes w n) k)" for k l
    using that pr by (auto simp: evs_def fieldEvents_set)
  have An: "FiredAny n l False \<in> set evs" if "l \<in> set (anyListeners (nodes w n))" for l
    using that by (simp add: evs_def evsA_def)
  have Cov: "Called m ''setState'' \<in> set evs" if nc: "nc" and c: "covered w n m" for m
    using c
  proof (cases rule: covered.cases)
    case self
    then show ?thesis using C by simp
  next
    case (step ks' k c)
    have "ks' = ks" using step(1) K' by simp
    then have "Called m ''setState'' \<in> set evsD" using cD[OF nc _ step(3,4)] step(2) by simp
    then show ?thesis by (simp add: evs_def)
  qed
  have Ab: "like st (state (nodes w' q)) \<and> Called q ''setState'' \<in> set evs"
    if "np" "above w n q" for q
    using aU[OF that] by (simp add: e evs_def)
  have Un: "state (nodes w' m) = state (nodes w m) \<and> (\<forall>e. e \<in> set evs \<longrightarrow> nodeOf e \<noteq> m)"
    if nt: "\<not> touched w n nc np m" for m
  proof -
    have mn: "m \<noteq> n" using nt by (simp add: touched_def)
    have "state (nodes w' m) = state (nodes w m)"
      using uD[OF nt] uU[OF nt] o0[OF mn] by (simp add: e n2)
    moreover have "nodeOf x \<noteq> m" if "x \<in> set evs" for x
      using that uD[OF nt] uU[OF nt] mn by (auto simp: evs_def evsA_def fieldEvents_set)
    ultimately show ?thesis by blast
  qed
  have "stMore n st nc np w w' evs"
    unfolding stMore_def using T Q C Fi An Cov Ab Un by blast
  then show "\<exists>evs. stMore n st nc np w w' evs" by blast
qed

lemma setState_more: "setStateMore f \<and> updateParentStateMore f"
proof (induction f)
  case 0
  show ?case by (simp add: setStateMore_def updateParentStateMore_def)
next
  case (Suc f)
  then show ?case using setStateMore_Suc updateParentStateMore_Suc by blast
qed
lemma news_append: "trace w' = trace w @ evs \<Longrightarrow> news w w' = evs"
  by (simp add: news_def)

lemma setState_silent:
  assumes run: "setState f n st False np w = Some (Inr w')"
    and up: "\<not> np \<or> parent (nodes w n) = None"
    and K: "objectKeys (vals (nodes w n)) = Inr ks"
  shows "trace w' = trace w @ Called n ''setState'' # fieldEvents w n ks
           @ map (\<lambda>l. FiredAny n l False) (anyListeners (nodes w n))"
proof -
  obtain g where f: "f = Suc g" using run by (cases f) auto
  let ?w0 = "upd n (\<lambda>nd. nd\<lparr>state := st\<rparr>) (emit [Called n ''setState''] w)"
  let ?w2 = "emit (fieldEvents w n ks) ?w0"
  have K0: "objectKeys (vals (nodes ?w0 n)) = Inr ks" using K by (simp add: upd_def)
  have fe: "fieldEvents ?w0 n ks = fieldEvents w n ks" by (simp add: fieldEvents_def upd_def)
  have U: "(if np then updateParentState g n ?w2 else ret ?w2) = Some (Inr w3) \<Longrightarrow> w3 = ?w2" for w3
  proof (cases np)
    case False
    assume "(if np then updateParentState g n ?w2 else ret ?w2) = Some (Inr w3)"
    then show ?thesis using False by simp
  next
    case True
    assume a: "(if np then updateParentState g n ?w2 else ret ?w2) = Some (Inr w3)"
    then obtain h where g: "g = Suc h" using True by (cases g) auto
    have "parent (nodes ?w2 n) = None" using up True by (simp add: upd_def)
    then show ?thesis using a True by (simp add: g)
  qed
  have r2: "forEach ks (\<lambda>w e. ret (fireListeners n e False w)) ?w0 = ret ?w2"
    using forEach_fire_exact[of ks n ?w0] fe by simp
  from run have "thenDo (if np then updateParentState g n ?w2 else ret ?w2)
                   (\<lambda>w3. ret (fireAnyListeners n False w3)) = Some (Inr w')"
    by (simp add: f Let_def K0 lift_def r2)
  then obtain w3 where u: "(if np then updateParentState g n ?w2 else ret ?w2) = Some (Inr w3)"
    and e: "w' = fireAnyListeners n False w3"
    by (auto simp: thenDo_eq_Inr)
  have "w3 = ?w2" using U[OF u] .
  then show ?thesis
    by (simp add: e fireAnyListeners_def emit_def upd_def)
qed

section \<open>The fan-out of the shared state\<close>

text \<open>
  C8, as the code has it. \<open>setState\<close> writes the state of the node and walks
  \<open>Object.keys(this.values)\<close>. A run that returns changes no field but states and only
  adds events to the trace; every event added is an entry into \<open>setState\<close> or the call of
  a listener with \<open>false\<close>, and a field listener is called only for a key that is present
  in the values of its node: a listener under an absent key is not called. The node ends
  with the state given (or a copy of it, written back by a child's upward hook); every
  listener under a key present in the values is called, and so is every "any" listener of
  the node. With \<open>notifyChild\<close>, every child node under a key present in the values, and
  in turn every child of theirs under a key present in their values, enters \<open>setState\<close>
  and ends with the state (or a copy). With \<open>notifyParent\<close>, every ancestor of the node
  enters \<open>setState\<close> and ends with a copy of the state. Every other node (a child node
  under an absent key, an ancestor without \<open>notifyParent\<close>) keeps its state and gets no
  event. Where nothing propagates (no \<open>notifyChild\<close>, and no \<open>notifyParent\<close> or no parent)
  the events are, in order: the entry, the field listeners key by key, the "any" listeners.
\<close>

theorem setState_fanout:
  assumes run: "setState f n st nc np w = Some (Inr w')"
  shows "trace w' = trace w @ news w w'
       \<and> list_all (stateEvent w) (news w w')
       \<and> allButState (nodes w' x) = allButState (nodes w x)
       \<and> like st (state (nodes w' n)) \<and> Called n ''setState'' \<in> set (news w w')
       \<and> (present w n k \<and> l \<in> set (listeners (nodes w n) k) \<longrightarrow> Fired n k l False \<in> set (news w w'))
       \<and> (\<not> present w n k \<longrightarrow> Fired n k l b \<notin> set (news w w'))
       \<and> (a \<in> set (anyListeners (nodes w n)) \<longrightarrow> FiredAny n a False \<in> set (news w w'))
       \<and> (nc \<and> covered w n m \<longrightarrow>
            like st (state (nodes w' m)) \<and> Called m ''setState'' \<in> set (news w w'))
       \<and> (np \<and> above w n q \<longrightarrow>
            like st (state (nodes w' q)) \<and> Called q ''setState'' \<in> set (news w w'))
       \<and> (\<not> touched w n nc np x \<longrightarrow>
            state (nodes w' x) = state (nodes w x) \<and> filter (onNode x) (news w w') = [])
       \<and> (\<not> nc \<and> (\<not> np \<or> parent (nodes w n) = None) \<and> objectKeys (vals (nodes w n)) = Inr ks \<longrightarrow>
            news w w' = Called n ''setState'' # fieldEvents w n ks
                          @ map (\<lambda>l. FiredAny n l False) (anyListeners (nodes w n)))"
proof -
  from setState_more[of f] run obtain evs where m: "stMore n st nc np w w' evs"
    unfolding setStateMore_def by blast
  have nw: "news w w' = evs" using m news_append by (simp add: stMore_def)
  have ok: "stInv st w w'" "like st (state (nodes w' n))"
    "nc \<and> covered w n m \<longrightarrow> like st (state (nodes w' m))"
    using setState_engine[of f] run unfolding setStateOk_def by blast+
  have 1: "trace w' = trace w @ news w w'" using m nw by (simp add: stMore_def)
  have 2: "list_all (stateEvent w) (news w w')" using m nw by (simp add: stMore_def)
  have 3: "allButState (nodes w' x) = allButState (nodes w x)" using ok(1) by (simp add: stInv_def)
  have 4: "Called n ''setState'' \<in> set (news w w')" using m nw by (simp add: stMore_def)
  have 5: "present w n k \<and> l \<in> set (listeners (nodes w n) k) \<longrightarrow> Fired n k l False \<in> set (news w w')"
    using m nw by (simp add: stMore_def)
  have 6: "\<not> present w n k \<longrightarrow> Fired n k l b \<notin> set (news w w')"
    using 2 by (auto simp: list_all_iff stateEvent_def)
  have 7: "a \<in> set (anyListeners (nodes w n)) \<longrightarrow> FiredAny n a False \<in> set (news w w')"
    using m nw by (simp add: stMore_def)
  have 8: "nc \<and> covered w n m \<longrightarrow> like st (state (nodes w' m)) \<and> Called m ''setState'' \<in> set (news w w')"
    using m nw ok(3) by (simp add: stMore_def)
  have 9: "np \<and> above w n q \<longrightarrow> like st (state (nodes w' q)) \<and> Called q ''setState'' \<in> set (news w w')"
    using m nw by (simp add: stMore_def)
  have 10: "\<not> touched w n nc np x \<longrightarrow>
            state (nodes w' x) = state (nodes w x) \<and> filter (onNode x) (news w w') = []"
    using m nw by (simp add: stMore_def filter_empty_conv onNode_def)
  have 11: "news w w' = Called n ''setState'' # fieldEvents w n ks
                          @ map (\<lambda>l. FiredAny n l False) (anyListeners (nodes w n))"
    if a: "\<not> nc \<and> (\<not> np \<or> parent (nodes w n) = None) \<and> objectKeys (vals (nodes w n)) = Inr ks"
  proof -
    have r: "setState f n st False np w = Some (Inr w')" using run a by simp
    show ?thesis using setState_silent[OF r] a news_append by blast
  qed
  show ?thesis using 1 2 3 ok(2) 4 5 6 7 8 9 10 11 by blast
qed
lemma run_state: "setState 5 (Suc 0) submitting True True familyWorld = Some (Inr afterState)"
  by (simp add: afterState_def submitting_def familyWorld_nodes evalDefs)

lemma covered_family: "covered familyWorld (Suc 0) 2"
  by (rule covered.step[of _ _ "[Name ''address'']" "Name ''address''" 2])
     (simp_all add: familyWorld_nodes covered.self keyOrder_def)

lemma emptyFamily_nodes:
  "nodes emptyFamily (Suc 0) =
     \<lparr>vals = Obj 0 [], defaultValues = Obj 1 [], childMap = (\<lambda>k. None)(Name ''a'' := Some 2),
      dirtyMap = [], errorMap = [], state = Obj 2 [(Name ''isSubmitting'', JBool False)],
      listeners = (\<lambda>k. [])(Name ''a'' := [0]), anyListeners = [], counter = 1, validator = None,
      validateOnChange = True, parent = None\<rparr>"
  "state (nodes emptyFamily 2) = Obj 7 [(Name ''isSubmitting'', JBool False)]"
  "trace emptyFamily = []"
  by (simp_all add: emptyFamily_def evalDefs fun_eq_iff)

lemma untouched_empty: "\<not> touched emptyFamily (Suc 0) True True 2"
proof -
  have c: "x = Suc 0" if "covered emptyFamily (Suc 0) x" for x
    using that by (cases rule: covered.cases) (simp_all add: emptyFamily_nodes keyOrder_def)
  have a: "\<not> above emptyFamily (Suc 0) q" for q
    by (rule above_root) (simp add: emptyFamily_nodes)
  show ?thesis unfolding touched_def using c[of 2] c a by auto
qed

lemma run_states:
  "setState 5 (Suc 0) submitting True True emptyFamily = Some (Inr afterEmptyState)"
  "setState 5 2 submitting True True familyWorld = Some (Inr afterChildState)"
  "setState 5 (Suc 0) submitting False False familyWorld = Some (Inr afterQuietState)"
  by (simp_all add: afterEmptyState_def afterChildState_def afterQuietState_def submitting_def
      emptyFamily_nodes familyWorld_nodes emptyFamily_def evalDefs)

lemma above_family: "above familyWorld 2 (Suc 0)"
  by (rule above.direct[of _ _ _ "Name ''address''"]) (simp add: familyWorld_nodes)

lemma news_start: "trace w = [] \<Longrightarrow> news w w' = trace w'"
  by (simp add: news_def)

theorem setState_fanout_witness:
  "setState 5 1 submitting True True familyWorld = Some (Inr afterState)
   \<and> present familyWorld 1 (Name ''address'')
   \<and> 0 \<in> set (listeners (nodes familyWorld 1) (Name ''address''))
   \<and> Fired 1 (Name ''address'') 0 False \<in> set (news familyWorld afterState)
   \<and> 1 \<in> set (anyListeners (nodes familyWorld 1))
   \<and> FiredAny 1 1 False \<in> set (news familyWorld afterState)
   \<and> covered familyWorld 1 2 \<and> like submitting (state (nodes afterState 2))
   \<and> Called 2 ''setState'' \<in> set (news familyWorld afterState)
   \<and> setState 5 1 submitting True True emptyFamily = Some (Inr afterEmptyState)
   \<and> \<not> present emptyFamily 1 (Name ''a'')
   \<and> Fired 1 (Name ''a'') 0 False \<notin> set (news emptyFamily afterEmptyState)
   \<and> \<not> touched emptyFamily 1 True True 2
   \<and> state (nodes afterEmptyState 2) = state (nodes emptyFamily 2)
   \<and> filter (onNode 2) (news emptyFamily afterEmptyState) = []
   \<and> setState 5 2 submitting True True familyWorld = Some (Inr afterChildState)
   \<and> above familyWorld 2 1 \<and> like submitting (state (nodes afterChildState 1))
   \<and> Called 1 ''setState'' \<in> set (news familyWorld afterChildState)
   \<and> setState 5 1 submitting False False familyWorld = Some (Inr afterQuietState)
   \<and> objectKeys (vals (nodes familyWorld 1)) = Inr [Name ''address'']
   \<and> news familyWorld afterQuietState =
       [Called 1 ''setState'', Fired 1 (Name ''address'') 0 False, FiredAny 1 1 False]"
  using
    setState_fanout[OF run_state, where k = "Name ''address''" and l = 0 and a = 1 and m = 2]
    setState_fanout[OF run_states(1), where k = "Name ''a''" and l = 0 and b = False and x = 2]
    setState_fanout[OF run_states(2), where q = 1]
    setState_fanout[OF run_states(3), where ks = "[Name ''address'']"]
    run_state run_states covered_family untouched_empty above_family
  by (simp add: familyWorld_nodes emptyFamily_nodes present_def fieldEvents_def keyOrder_def)
text \<open>C8 as stated fails for a key that is not present in the values: the root of this
  family has a listener and a child node under \<open>a\<close>, its values are \<open>{}\<close>, and
  \<open>setState({isSubmitting: true})\<close> calls no listener and leaves the child's state as it
  was.\<close>

theorem setState_fanout_counterexample:
  "listeners (nodes emptyFamily 1) (Name ''a'') = [0]
   \<and> childMap (nodes emptyFamily 1) (Name ''a'') = Some 2
   \<and> observe (\<lambda>w. (trace w, state (nodes w 2))) (setState 5 1 submitting True True emptyFamily)
       = Some (Inr ([Called 1 ''setState''], Obj 7 [(Name ''isSubmitting'', JBool False)]))"
  by (simp add: emptyFamily_def submitting_def evalDefs)

section \<open>Bulk writes on a child node, and writes on the parent's side\<close>




lemma target_upd_errorMap [simp]:
  "target b (nodes (upd x (\<lambda>nd. nd\<lparr>errorMap := em nd\<rparr>) w) m) = target b (nodes w m)"
  by (simp add: upd_def target_def)










end
